theory Spec2Isabelle
  imports Main "HOL-Library.Sublist" "HOL-Library.Word" "HOL-Library.Char_ord"
    "HOL-Library.List_Lexorder"
begin

text \<open>
  The secrets vault of the repository: \<^verbatim>\<open>src/utils/config_utils.py\<close> (key derivation,
  encryption of the configuration, \<^verbatim>\<open>load_config\<close> and \<^verbatim>\<open>save_config\<close>) and
  \<^verbatim>\<open>src/utils/secure_data_utils.py\<close> (the same for data files, the integrity check and
  the redactor of sensitive fields). Each function is translated as it is written; what
  the functions do to files, the environment and objects is explicit state.
\<close>

section \<open>Values\<close>

text \<open>
  The payloads of \<^verbatim>\<open>config_utils.py\<close> and \<^verbatim>\<open>secure_data_utils.py\<close> are Python
  dictionaries with string keys and JSON-representable values. A \<^verbatim>\<open>dict\<close> keeps its
  items in insertion order and its keys are unique, so it is an association list whose
  keys are distinct (\<open>wf_val\<close> below). A \<^verbatim>\<open>float\<close> is carried as its 64 bits and never
  computed with. Text is an Isabelle \<open>string\<close>; \<^verbatim>\<open>bytes\<close> are lists of 8-bit words.
\<close>

type_synonym bytes = "8 word list"

datatype pyval =
    PNone
  | PBool bool
  | PInt int
  | PFloat "64 word"
  | PStr string
  | PList "pyval list"
  | PDict "(string \<times> pyval) list"

type_synonym pydict = "(string \<times> pyval) list"

fun wf_val :: "pyval \<Rightarrow> bool" where
  "wf_val (PList xs) = list_all wf_val xs"
| "wf_val (PDict kvs) = (distinct (map fst kvs) \<and> list_all (\<lambda>kv. wf_val (snd kv)) kvs)"
| "wf_val _ = True"

text \<open>\<^verbatim>\<open>d[key] = value\<close>: an existing key keeps its place, a new key goes last.\<close>

fun dict_set :: "(string \<times> 'v) list \<Rightarrow> string \<Rightarrow> 'v \<Rightarrow> (string \<times> 'v) list" where
  "dict_set [] k v = [(k, v)]"
| "dict_set ((k', v') # d) k v = (if k' = k then (k, v) # d else (k', v') # dict_set d k v)"

section \<open>The redactor: \<^verbatim>\<open>sanitize_sensitive_data\<close>\<close>

definition sensitive_fields :: "string list" where
  "sensitive_fields =
     [''api_key'', ''password'', ''token'', ''secret'', ''key'',
      ''credit_card'', ''ssn'', ''social_security'', ''account_number'']"

text \<open>
  \<^verbatim>\<open>str.lower()\<close> on the letters A to Z; every other character is kept. Python also
  lower-cases the accented capitals above 127, to characters above 127: the vocabulary
  is ASCII, so for text of code points below 256 the membership tests of
  \<open>is_sensitive\<close> come out the same.
\<close>

definition lower_char :: "char \<Rightarrow> char" where
  "lower_char c =
     (case map_of (zip ''ABCDEFGHIJKLMNOPQRSTUVWXYZ'' ''abcdefghijklmnopqrstuvwxyz'') c of
        Some l \<Rightarrow> l
      | None \<Rightarrow> c)"

definition lower :: "string \<Rightarrow> string" where
  "lower s = map lower_char s"

text \<open>\<^verbatim>\<open>sub in s\<close> on strings: \<open>sub\<close> occurs in \<open>s\<close> as a contiguous run.\<close>

fun str_in :: "string \<Rightarrow> string \<Rightarrow> bool" where
  "str_in sub [] = (sub = [])"
| "str_in sub (c # cs) = (prefix sub (c # cs) \<or> str_in sub cs)"

text \<open>\<^verbatim>\<open>any(field in key.lower() for field in sensitive_fields)\<close>\<close>

definition is_sensitive :: "string \<Rightarrow> bool" where
  "is_sensitive key = list_ex (\<lambda>field. str_in field (lower key)) sensitive_fields"

text \<open>
  \<^verbatim>\<open>value[:2] + "*" * (len(value) - 4) + value[-2:]\<close>; the slice \<^verbatim>\<open>value[-2:]\<close>
  starts at \<open>max 0 (len - 2)\<close>, which is what the subtraction on \<open>nat\<close> gives.
\<close>

definition mask_value :: "string \<Rightarrow> string" where
  "mask_value v =
     (if length v \<le> 4 then replicate (length v) CHR ''*''
      else take 2 v @ replicate (length v - 4) CHR ''*'' @ drop (length v - 2) v)"

text \<open>
  \<^verbatim>\<open>sanitize_dict\<close>: the loop over \<^verbatim>\<open>d.items()\<close> is a fold that starts from the
  empty \<^verbatim>\<open>result\<close> and stores one entry per item.
\<close>

fun sanitize_dict :: "pydict \<Rightarrow> pydict" where
  "sanitize_dict d =
     fold (\<lambda>kv result.
             dict_set result (fst kv)
               (case snd kv of
                  PDict d' \<Rightarrow> PDict (sanitize_dict d')
                | PStr s \<Rightarrow> if is_sensitive (fst kv) then PStr (mask_value s) else PStr s
                | other \<Rightarrow> other))
          d []"

definition sanitize_sensitive_data :: "pydict \<Rightarrow> pydict" where
  "sanitize_sensitive_data data = sanitize_dict data"

declare sanitize_dict.simps [simp del]

text \<open>\<^verbatim>\<open>isinstance(value, dict)\<close> and \<^verbatim>\<open>isinstance(value, str)\<close>\<close>

fun isinstance_dict :: "pyval \<Rightarrow> bool" where
  "isinstance_dict (PDict _) = True"
| "isinstance_dict _ = False"

fun isinstance_str :: "pyval \<Rightarrow> bool" where
  "isinstance_str (PStr _) = True"
| "isinstance_str _ = False"

subsection \<open>The redactor as the specification words it\<close>

text \<open>
  A key contains a term of the vocabulary, ignoring case: some contiguous part of the key
  equals the term once both are lower-cased.
\<close>

definition spec_contains_term :: "string \<Rightarrow> bool" where
  "spec_contains_term key =
     (\<exists>t \<in> set sensitive_fields. \<exists>pre u suf. key = pre @ u @ suf \<and> lower u = lower t)"

text \<open>
  \<open>m\<close> is the masked form of \<open>s\<close>: of the same length; all stars when \<open>s\<close> has at most
  four characters; otherwise the first two and the last two characters of \<open>s\<close> with a
  star at every position in between.
\<close>

definition spec_masked :: "string \<Rightarrow> string \<Rightarrow> bool" where
  "spec_masked s m =
     (length m = length s \<and>
      (if length s \<le> 4 then \<forall>i < length s. m ! i = CHR ''*''
       else take 2 m = take 2 s \<and> drop (length s - 2) m = drop (length s - 2) s \<and>
            (\<forall>i. 2 \<le> i \<and> i < length s - 2 \<longrightarrow> m ! i = CHR ''*'')))"

section \<open>Exceptions\<close>

text \<open>
  The exceptions the two modules raise themselves (\<^verbatim>\<open>ConfigError\<close>,
  \<^verbatim>\<open>SecureDataError\<close>) and the ones that reach their \<^verbatim>\<open>except Exception\<close>
  handlers from the interpreter and the libraries. \<open>exn_type\<close> is the name of the
  exception's class and \<open>exn_str\<close> is \<^verbatim>\<open>str(e)\<close>, which the handlers paste into
  the message of the exception they raise instead.
\<close>

datatype exn =
    ConfigError string
  | SecureDataError string
  | FileNotFoundError string
  | PermissionError string
  | NotADirectoryError string
  | IsADirectoryError string
  | NoSpaceError string
  | ValueError string
  | TypeError string
  | InvalidToken
  | JSONDecodeError string
  | UnicodeDecodeError string

fun exn_type :: "exn \<Rightarrow> string" where
  "exn_type (ConfigError _) = ''ConfigError''"
| "exn_type (SecureDataError _) = ''SecureDataError''"
| "exn_type (FileNotFoundError _) = ''FileNotFoundError''"
| "exn_type (PermissionError _) = ''PermissionError''"
| "exn_type (NotADirectoryError _) = ''NotADirectoryError''"
| "exn_type (IsADirectoryError _) = ''IsADirectoryError''"
| "exn_type (NoSpaceError _) = ''OSError''"
| "exn_type (ValueError _) = ''ValueError''"
| "exn_type (TypeError _) = ''TypeError''"
| "exn_type InvalidToken = ''InvalidToken''"
| "exn_type (JSONDecodeError _) = ''JSONDecodeError''"
| "exn_type (UnicodeDecodeError _) = ''UnicodeDecodeError''"

definition hex_digit :: "nat \<Rightarrow> char" where
  "hex_digit d = ''0123456789abcdef'' ! (d mod 16)"

text \<open>
  \<^verbatim>\<open>repr\<close> of a string whose characters are code points below 256: single quotes
  unless the text has a single quote and no double quote; the quote and the backslash
  are escaped, tab, newline and return are written \<^verbatim>\<open>\t \n \r\<close>, and the other
  unprintable characters as \<^verbatim>\<open>\xNN\<close>.
\<close>

definition repr_char :: "char \<Rightarrow> char \<Rightarrow> string" where
  "repr_char q c =
     (let n = (of_char c :: nat) in
      if c = q \<or> n = 0x5C then [CHR 0x5C, c]
      else if n = 9 then [CHR 0x5C, CHR ''t'']
      else if n = 10 then [CHR 0x5C, CHR ''n'']
      else if n = 13 then [CHR 0x5C, CHR ''r'']
      else if n < 32 \<or> (127 \<le> n \<and> n \<le> 160) \<or> n = 173
        then [CHR 0x5C, CHR ''x'', hex_digit (n div 16), hex_digit n]
      else [c])"

definition py_repr :: "string \<Rightarrow> string" where
  "py_repr s =
     (let q = (if CHR 0x27 \<in> set s \<and> CHR 0x22 \<notin> set s then CHR 0x22 else CHR 0x27)
      in [q] @ concat (map (repr_char q) s) @ [q])"

fun exn_str :: "exn \<Rightarrow> string" where
  "exn_str (ConfigError m) = m"
| "exn_str (SecureDataError m) = m"
| "exn_str (FileNotFoundError p) = ''[Errno 2] No such file or directory: '' @ py_repr p"
| "exn_str (PermissionError p) = ''[Errno 13] Permission denied: '' @ py_repr p"
| "exn_str (NotADirectoryError p) = ''[Errno 20] Not a directory: '' @ py_repr p"
| "exn_str (IsADirectoryError p) = ''[Errno 21] Is a directory: '' @ py_repr p"
| "exn_str (NoSpaceError p) = ''[Errno 28] No space left on device''"
| "exn_str (ValueError m) = m"
| "exn_str (TypeError m) = m"
| "exn_str InvalidToken = []"
| "exn_str (JSONDecodeError m) = m"
| "exn_str (UnicodeDecodeError m) = m"

section \<open>The libraries\<close>

text \<open>
  What the modules import and do not define: the key derivation function, the Fernet
  cipher, HMAC, the JSON parser, the decoder of UTF-8, the printer and the reader of floats. They are
  parameters of the model, one record of functions; each theorem states the part of
  their documented behaviour it relies on as a hypothesis.
  \<^item> \<open>pbkdf2_hmac_sha256 L n iters salt pw\<close> is
    \<^verbatim>\<open>PBKDF2HMAC(SHA256(), length=n, salt=salt, iterations=iters).derive(pw)\<close>;
  \<^item> \<open>fernet_key_ok L key\<close>: \<^verbatim>\<open>Fernet(key)\<close> accepts the key (it raises
    \<^verbatim>\<open>ValueError\<close> otherwise);
  \<^item> \<open>fernet_encrypt L key time iv data\<close> is the token \<^verbatim>\<open>Fernet(key).encrypt(data)\<close>
    builds at the given time with the given 16 random bytes;
  \<^item> \<open>fernet_decrypt L key token\<close> is \<^verbatim>\<open>Fernet(key).decrypt(token)\<close>, \<open>None\<close> for
    \<^verbatim>\<open>InvalidToken\<close>;
  \<^item> \<open>hmac_sha256_hex L key msg\<close> is
    \<^verbatim>\<open>hmac.new(key, msg, hashlib.sha256).hexdigest()\<close>;
  \<^item> \<open>json_loads L text\<close> is \<^verbatim>\<open>json.loads(text)\<close>, \<open>Inl\<close> the message of its
    \<^verbatim>\<open>JSONDecodeError\<close>;
  \<^item> \<open>bytes_decode L b\<close> is \<^verbatim>\<open>b.decode()\<close>, \<open>Inl\<close> the message of its
    \<^verbatim>\<open>UnicodeDecodeError\<close>;
  \<^item> \<open>float_repr L x\<close> is the text \<^verbatim>\<open>json\<close> writes for the float \<open>x\<close>;
  \<^item> \<open>float_of_str L text\<close> is \<^verbatim>\<open>float(text)\<close>, for the text of a number.
\<close>

record pylib =
  pbkdf2_hmac_sha256 :: "nat \<Rightarrow> int \<Rightarrow> bytes \<Rightarrow> bytes \<Rightarrow> bytes"
  fernet_key_ok :: "bytes \<Rightarrow> bool"
  fernet_encrypt :: "bytes \<Rightarrow> nat \<Rightarrow> bytes \<Rightarrow> bytes \<Rightarrow> bytes"
  fernet_decrypt :: "bytes \<Rightarrow> bytes \<Rightarrow> bytes option"
  hmac_sha256_hex :: "bytes \<Rightarrow> bytes \<Rightarrow> string"
  json_loads :: "string \<Rightarrow> string + pyval"
  bytes_decode :: "bytes \<Rightarrow> string + string"
  float_repr :: "64 word \<Rightarrow> string"
  float_of_str :: "string \<Rightarrow> 64 word"

text \<open>\<^verbatim>\<open>str.encode()\<close>: UTF-8 of code points below 256.\<close>

definition encode_char :: "char \<Rightarrow> bytes" where
  "encode_char c =
     (let n = (of_char c :: nat) in
      if n < 128 then [of_nat n] else [of_nat (192 + n div 64), of_nat (128 + n mod 64)])"

definition str_encode :: "string \<Rightarrow> bytes" where
  "str_encode s = concat (map encode_char s)"

text \<open>\<^verbatim>\<open>base64.urlsafe_b64encode\<close>: three bytes become four characters, padded with \<^verbatim>\<open>=\<close>.\<close>

definition b64_char :: "nat \<Rightarrow> 8 word" where
  "b64_char n =
     of_char (''ABCDEFGHIJKLMNOPQRSTUVWXYZabcdefghijklmnopqrstuvwxyz0123456789-_'' ! (n mod 64))"

fun urlsafe_b64encode :: "bytes \<Rightarrow> bytes" where
  "urlsafe_b64encode [] = []"
| "urlsafe_b64encode [a] =
     [b64_char (unat a div 4), b64_char (unat a mod 4 * 16), 61, 61]"
| "urlsafe_b64encode [a, b] =
     [b64_char (unat a div 4), b64_char (unat a mod 4 * 16 + unat b div 16),
      b64_char (unat b mod 16 * 4), 61]"
| "urlsafe_b64encode (a # b # c # rest) =
     [b64_char (unat a div 4), b64_char (unat a mod 4 * 16 + unat b div 16),
      b64_char (unat b mod 16 * 4 + unat c div 64), b64_char (unat c mod 64)]
     @ urlsafe_b64encode rest"

section \<open>The world: files, environment, randomness, clock\<close>

text \<open>
  The modules read and write files, read environment variables, draw random bytes and
  (inside Fernet) read the clock. The state they act on is a record; every file
  operation is appended to \<open>trace\<close>, in the order it happens. \<open>files\<close> gives, for a
  path at which something exists (\<^verbatim>\<open>os.path.exists\<close>), what is read from it.
  \<open>read_fault\<close> gives, for a path that \<^verbatim>\<open>open\<close> refuses to open for reading, the
  exception it raises, whether or not something exists there: \<^verbatim>\<open>NotADirectoryError\<close>
  for a path under a regular file, \<^verbatim>\<open>ValueError\<close> for a path with a NUL byte,
  \<^verbatim>\<open>IsADirectoryError\<close> for a directory, \<^verbatim>\<open>PermissionError\<close> for a file that may not be
  read. A path with no fault and nothing at it raises \<^verbatim>\<open>FileNotFoundError\<close>.
  Opening a path of \<open>unwritable\<close> for writing raises \<^verbatim>\<open>PermissionError\<close> and leaves the
  disk as it was; writing to a path of \<open>no_space\<close> raises \<^verbatim>\<open>OSError\<close> after the open
  has created or emptied the file; \<^verbatim>\<open>os.remove\<close> of a path of \<open>undeletable\<close> raises
  \<^verbatim>\<open>PermissionError\<close>.
\<close>

datatype io_event =
    OpenRead string
  | Truncate string
  | WriteFile string bytes
  | RemoveFile string

record world =
  files :: "string \<rightharpoonup> bytes"
  environ :: "string \<rightharpoonup> string"
  read_fault :: "string \<rightharpoonup> exn"
  unwritable :: "string set"
  no_space :: "string set"
  undeletable :: "string set"
  urandom_src :: "nat \<Rightarrow> 8 word"
  clock :: nat
  trace :: "io_event list"

definition log_ev :: "io_event \<Rightarrow> world \<Rightarrow> world" where
  "log_ev e w = w\<lparr>trace := trace w @ [e]\<rparr>"

definition path_exists :: "string \<Rightarrow> world \<Rightarrow> bool" where
  "path_exists p w = (files w p \<noteq> None)"

definition getenv :: "string \<Rightarrow> world \<Rightarrow> string option" where
  "getenv name w = environ w name"

text \<open>\<^verbatim>\<open>with open(p, "rb") as f: f.read()\<close>\<close>

definition read_file :: "string \<Rightarrow> world \<Rightarrow> (exn + bytes) \<times> world" where
  "read_file p w =
     (case read_fault w p of
        Some e \<Rightarrow> (Inl e, log_ev (OpenRead p) w)
      | None \<Rightarrow>
          (case files w p of
             None \<Rightarrow> (Inl (FileNotFoundError p), log_ev (OpenRead p) w)
           | Some b \<Rightarrow> (Inr b, log_ev (OpenRead p) w)))"

text \<open>\<^verbatim>\<open>with open(p, "wb") as f: f.write(b)\<close>\<close>

definition write_file :: "string \<Rightarrow> bytes \<Rightarrow> world \<Rightarrow> (exn + unit) \<times> world" where
  "write_file p b w =
     (if p \<in> unwritable w then (Inl (PermissionError p), w)
      else let w1 = log_ev (Truncate p) (w\<lparr>files := (files w)(p \<mapsto> [])\<rparr>) in
        if p \<in> no_space w then (Inl (NoSpaceError p), w1)
        else (Inr (), log_ev (WriteFile p b) (w1\<lparr>files := (files w1)(p \<mapsto> b)\<rparr>)))"

text \<open>\<^verbatim>\<open>os.remove(p)\<close>\<close>

definition remove_file :: "string \<Rightarrow> world \<Rightarrow> (exn + unit) \<times> world" where
  "remove_file p w =
     (if files w p = None then (Inl (FileNotFoundError p), w)
      else if p \<in> undeletable w then (Inl (PermissionError p), w)
      else (Inr (), log_ev (RemoveFile p) (w\<lparr>files := (files w)(p := None)\<rparr>)))"

text \<open>\<^verbatim>\<open>os.urandom(n)\<close>: the next \<open>n\<close> bytes of the random source.\<close>

definition os_urandom :: "nat \<Rightarrow> world \<Rightarrow> bytes \<times> world" where
  "os_urandom n w =
     (map (urandom_src w) [0..<n], w\<lparr>urandom_src := (\<lambda>i. urandom_src w (i + n))\<rparr>)"

section \<open>Key derivation: \<^verbatim>\<open>generate_key\<close> and \<^verbatim>\<open>derive_key\<close>\<close>

text \<open>
  The two functions have the same body. Neither has a \<^verbatim>\<open>raise\<close> nor a check of the
  password, so the result is a pair and not a sum.
\<close>

definition generate_key :: "pylib \<Rightarrow> string \<Rightarrow> bytes option \<Rightarrow> world \<Rightarrow> (bytes \<times> bytes) \<times> world" where
  "generate_key L password salt w =
     (let (salt', w') = (case salt of None \<Rightarrow> os_urandom 16 w | Some s \<Rightarrow> (s, w));
          key = urlsafe_b64encode (pbkdf2_hmac_sha256 L 32 100000 salt' (str_encode password))
      in ((key, salt'), w'))"

definition derive_key :: "pylib \<Rightarrow> string \<Rightarrow> bytes option \<Rightarrow> world \<Rightarrow> (bytes \<times> bytes) \<times> world" where
  "derive_key L password salt w =
     (let (salt', w') = (case salt of None \<Rightarrow> os_urandom 16 w | Some s \<Rightarrow> (s, w));
          key = urlsafe_b64encode (pbkdf2_hmac_sha256 L 32 100000 salt' (str_encode password))
      in ((key, salt'), w'))"

section \<open>\<^verbatim>\<open>json.dumps\<close>\<close>

text \<open>
  The encoder of the standard library with its defaults (\<^verbatim>\<open>ensure_ascii\<close>, separators
  \<^verbatim>\<open>", "\<close> and \<^verbatim>\<open>": "\<close>) and the two options the modules pass: \<^verbatim>\<open>sort_keys=True\<close>
  (\<^verbatim>\<open>verify_data_integrity\<close>) writes the items of every dictionary sorted by key, and
  \<^verbatim>\<open>indent=4\<close> (\<^verbatim>\<open>save_config\<close>) puts every item on a line of its own, with \<^verbatim>\<open>","\<close>
  as the item separator.
\<close>

definition digit_char :: "nat \<Rightarrow> char" where
  "digit_char d = ''0123456789'' ! (d mod 10)"

fun nat_repr :: "nat \<Rightarrow> string" where
  "nat_repr n = (if n < 10 then [digit_char n] else nat_repr (n div 10) @ [digit_char (n mod 10)])"

declare nat_repr.simps [simp del]

definition int_repr :: "int \<Rightarrow> string" where
  "int_repr i = (if i < 0 then CHR ''-'' # nat_repr (nat (- i)) else nat_repr (nat i))"

definition json_escape_char :: "char \<Rightarrow> string" where
  "json_escape_char c =
     (let n = (of_char c :: nat) in
      if n = 0x22 then [CHR 0x5C, CHR 0x22]
      else if n = 0x5C then [CHR 0x5C, CHR 0x5C]
      else if n = 10 then [CHR 0x5C, CHR ''n'']
      else if n = 13 then [CHR 0x5C, CHR ''r'']
      else if n = 9 then [CHR 0x5C, CHR ''t'']
      else if n = 8 then [CHR 0x5C, CHR ''b'']
      else if n = 12 then [CHR 0x5C, CHR ''f'']
      else if 32 \<le> n \<and> n \<le> 126 then [c]
      else [CHR 0x5C, CHR ''u'', CHR ''0'', CHR ''0'', hex_digit (n div 16), hex_digit n])"

definition encode_basestring_ascii :: "string \<Rightarrow> string" where
  "encode_basestring_ascii s = [CHR 0x22] @ concat (map json_escape_char s) @ [CHR 0x22]"

fun join :: "string \<Rightarrow> string list \<Rightarrow> string" where
  "join sep [] = []"
| "join sep [x] = x"
| "join sep (x # y # ys) = x @ sep @ join sep (y # ys)"

definition newline_indent :: "nat option \<Rightarrow> nat \<Rightarrow> string" where
  "newline_indent indent level =
     (case indent of None \<Rightarrow> [] | Some n \<Rightarrow> CHR 0x0A # replicate (n * level) CHR '' '')"

definition item_separator :: "nat option \<Rightarrow> nat \<Rightarrow> string" where
  "item_separator indent level =
     (case indent of None \<Rightarrow> '', '' | Some n \<Rightarrow> '','' @ newline_indent indent level)"

lemma size_list_member: "x \<in> set xs \<Longrightarrow> size x < size (PList xs)"
  by (induction xs) auto

lemma size_dict_member: "kv \<in> set d \<Longrightarrow> size (snd kv) < size (PDict d)"
  by (induction d) auto

function json_encode :: "pylib \<Rightarrow> bool \<Rightarrow> nat option \<Rightarrow> nat \<Rightarrow> pyval \<Rightarrow> string" where
  "json_encode L sort_keys indent level PNone = ''null''"
| "json_encode L sort_keys indent level (PBool b) = (if b then ''true'' else ''false'')"
| "json_encode L sort_keys indent level (PInt i) = int_repr i"
| "json_encode L sort_keys indent level (PFloat x) = float_repr L x"
| "json_encode L sort_keys indent level (PStr s) = encode_basestring_ascii s"
| "json_encode L sort_keys indent level (PList xs) =
     (if xs = [] then ''[]''
      else ''['' @ newline_indent indent (level + 1)
           @ join (item_separator indent (level + 1))
               (map (json_encode L sort_keys indent (level + 1)) xs)
           @ newline_indent indent level @ '']'')"
| "json_encode L sort_keys indent level (PDict d) =
     (if d = [] then ''{}''
      else ''{'' @ newline_indent indent (level + 1)
           @ join (item_separator indent (level + 1))
               (map (\<lambda>kv. encode_basestring_ascii (fst kv) @ '': ''
                            @ json_encode L sort_keys indent (level + 1) (snd kv))
                    (if sort_keys then sort_key fst d else d))
           @ newline_indent indent level @ ''}'')"
  by pat_completeness auto
termination
proof (relation "measure (\<lambda>(L, sk, ind, lvl, v). size v)", goal_cases)
  case 1 show ?case by simp
next
  case (2 L sk ind lvl xs x)
  then show ?case using size_list_member [of x xs] by simp
next
  case (3 L sk ind lvl d kv)
  then have "kv \<in> set d" by (auto split: if_splits)
  then show ?case using size_dict_member [of kv d] by simp
qed

declare json_encode.simps [simp del]

definition json_dumps :: "pylib \<Rightarrow> pyval \<Rightarrow> string" where
  "json_dumps L v = json_encode L False None 0 v"

definition json_dumps_sorted :: "pylib \<Rightarrow> pyval \<Rightarrow> string" where
  "json_dumps_sorted L v = json_encode L True None 0 v"

definition json_dumps_indent4 :: "pylib \<Rightarrow> pyval \<Rightarrow> string" where
  "json_dumps_indent4 L v = json_encode L False (Some 4) 0 v"

text \<open>\<^verbatim>\<open>json.loads(b.decode())\<close>, and \<^verbatim>\<open>json.load(f)\<close> of a file opened as text.\<close>

definition json_loads_bytes :: "pylib \<Rightarrow> bytes \<Rightarrow> exn + pyval" where
  "json_loads_bytes L b =
     (case bytes_decode L b of
        Inl m \<Rightarrow> Inl (UnicodeDecodeError m)
      | Inr text \<Rightarrow>
          (case json_loads L text of
             Inl m \<Rightarrow> Inl (JSONDecodeError m)
           | Inr v \<Rightarrow> Inr v))"

section \<open>\<^verbatim>\<open>json.loads\<close>: a reference reader\<close>

text \<open>
  The decoder of the standard library (\<^verbatim>\<open>json/decoder.py\<close> and \<^verbatim>\<open>json/scanner.py\<close>), for
  texts of code points below 256. \<open>None\<close> is where the decoder raises, or where the value
  read is not a value of the model (an escape \<^verbatim>\<open>\uXXXX\<close> of a code point from 256 on).
  \<^item> white space is space, tab, line feed and carriage return;
  \<^item> \<open>scan_string\<close> reads a string after its opening quote, up to the closing one: a
    control character is refused, the escapes are the eight of one letter and
    \<^verbatim>\<open>\u\<close> with four hexadecimal digits;
  \<^item> \<open>scan_number\<close> follows the expression
    \<^verbatim>\<open>(-?(?:0|[1-9][0-9]*))(\.[0-9]+)?([eE][-+]?[0-9]+)?\<close>: with neither fraction nor
    exponent the token is an \<^verbatim>\<open>int\<close>, else \<^verbatim>\<open>float\<close> of the token; then come
    \<^verbatim>\<open>NaN\<close>, \<^verbatim>\<open>Infinity\<close> and \<^verbatim>\<open>-Infinity\<close>;
  \<^item> \<open>parse_value\<close>, \<open>parse_elems\<close> and \<open>parse_members\<close> are \<^verbatim>\<open>scan_once\<close>, the loop of
    \<^verbatim>\<open>JSONArray\<close> and the loop of \<^verbatim>\<open>JSONObject\<close>; the pairs of an object go through
    \<^verbatim>\<open>dict(pairs)\<close>, so that a later pair with the same key replaces the value of the
    earlier one. Their first argument after the reader of floats bounds the depth of the
    recursion; \<open>json_parse\<close> gives them one more than the length of the text, which is
    enough for every text that \<^verbatim>\<open>json.dumps\<close> writes (\<open>json_parse_dumps\<close> below);
  \<^item> \<open>json_parse\<close> is \<^verbatim>\<open>JSONDecoder.decode\<close>: white space, one value, white space, the
    end.

  \<open>json_loads\<close> stays a parameter of the model. A theorem that needs what it returns says
  so: \<open>json_loads\<close> returns what this reader returns, wherever this reader returns.
\<close>

definition is_ws :: "char \<Rightarrow> bool" where
  "is_ws c = (c = CHR '' '' \<or> c = CHR 0x09 \<or> c = CHR 0x0A \<or> c = CHR 0x0D)"

definition skip_ws :: "string \<Rightarrow> string" where
  "skip_ws text = dropWhile is_ws text"

definition is_digit :: "char \<Rightarrow> bool" where
  "is_digit c = (c \<in> set ''0123456789'')"

definition digit_val :: "char \<Rightarrow> nat" where
  "digit_val c = of_char c - 48"

definition digits_val :: "string \<Rightarrow> nat" where
  "digits_val ds = foldl (\<lambda>n c. 10 * n + digit_val c) 0 ds"

definition hex_val :: "char \<Rightarrow> nat option" where
  "hex_val c = map_of (zip ''0123456789abcdef'' [0..<16] @ zip ''ABCDEF'' [10..<16]) c"

definition unescape :: "char \<Rightarrow> char option" where
  "unescape e =
     map_of [(CHR 0x22, CHR 0x22), (CHR 0x5C, CHR 0x5C), (CHR ''/'', CHR ''/''),
             (CHR ''b'', CHR 0x08), (CHR ''f'', CHR 0x0C), (CHR ''n'', CHR 0x0A),
             (CHR ''r'', CHR 0x0D), (CHR ''t'', CHR 0x09)] e"

fun scan_string :: "string \<Rightarrow> (string \<times> string) option" where
  "scan_string [] = None"
| "scan_string (c # cs) =
     (if c = CHR 0x22 then Some ([], cs)
      else if c = CHR 0x5C then
        (case cs of
           [] \<Rightarrow> None
         | e # cs' \<Rightarrow>
             if e = CHR ''u'' then
               (case cs' of
                  h1 # h2 # h3 # h4 # cs'' \<Rightarrow>
                    (case (hex_val h1, hex_val h2, hex_val h3, hex_val h4) of
                       (Some a, Some b, Some c', Some d) \<Rightarrow>
                         if a = 0 \<and> b = 0 then
                           map_option (\<lambda>(s, r). (char_of (16 * c' + d) # s, r)) (scan_string cs'')
                         else None
                     | _ \<Rightarrow> None)
                | _ \<Rightarrow> None)
             else
               (case unescape e of
                  Some x \<Rightarrow> map_option (\<lambda>(s, r). (x # s, r)) (scan_string cs')
                | None \<Rightarrow> None))
      else if (of_char c :: nat) < 32 then None
      else map_option (\<lambda>(s, r). (c # s, r)) (scan_string cs))"


definition scan_digits :: "string \<Rightarrow> string \<times> string" where
  "scan_digits t =
     (case t of
        [] \<Rightarrow> ([], t)
      | c # r \<Rightarrow>
          if c = CHR ''0'' then ([c], r)
          else if is_digit c then (takeWhile is_digit t, dropWhile is_digit t)
          else ([], t))"

definition scan_int :: "string \<Rightarrow> string \<times> string" where
  "scan_int t =
     (case t of
        [] \<Rightarrow> ([], t)
      | c # r \<Rightarrow>
          if c = CHR ''-''
          then (case scan_digits r of (ds, r') \<Rightarrow> if ds = [] then ([], t) else (c # ds, r'))
          else scan_digits t)"

definition scan_frac :: "string \<Rightarrow> string \<times> string" where
  "scan_frac t =
     (case t of
        [] \<Rightarrow> ([], t)
      | c # r \<Rightarrow>
          if c = CHR ''.'' \<and> takeWhile is_digit r \<noteq> []
          then (c # takeWhile is_digit r, dropWhile is_digit r)
          else ([], t))"

definition scan_exp :: "string \<Rightarrow> string \<times> string" where
  "scan_exp t =
     (case t of
        [] \<Rightarrow> ([], t)
      | c # r \<Rightarrow>
          if c = CHR ''e'' \<or> c = CHR ''E'' then
            (case (case r of
                     [] \<Rightarrow> ([], r)
                   | s # r'' \<Rightarrow> if s = CHR ''+'' \<or> s = CHR ''-'' then ([s], r'') else ([], r)) of
               (sg, r') \<Rightarrow>
                 if takeWhile is_digit r' \<noteq> []
                 then (c # sg @ takeWhile is_digit r', dropWhile is_digit r')
                 else ([], t))
          else ([], t))"

definition int_of_text :: "string \<Rightarrow> int" where
  "int_of_text ip =
     (case ip of
        [] \<Rightarrow> 0
      | c # ds \<Rightarrow> if c = CHR ''-'' then - int (digits_val ds) else int (digits_val ip))"

definition scan_number :: "(string \<Rightarrow> 64 word) \<Rightarrow> string \<Rightarrow> (pyval \<times> string) option" where
  "scan_number float_of text =
     (case scan_int text of
        (ip, t1) \<Rightarrow>
          if ip = [] then
            (if prefix ''NaN'' text then Some (PFloat (float_of ''NaN''), drop 3 text)
             else if prefix ''Infinity'' text
               then Some (PFloat (float_of ''Infinity''), drop 8 text)
             else if prefix ''-Infinity'' text
               then Some (PFloat (float_of ''-Infinity''), drop 9 text)
             else None)
          else
            (case scan_frac t1 of
               (frac, t2) \<Rightarrow>
                 (case scan_exp t2 of
                    (ex, t3) \<Rightarrow>
                      if frac = [] \<and> ex = [] then Some (PInt (int_of_text ip), t3)
                      else Some (PFloat (float_of (ip @ frac @ ex)), t3))))"

fun parse_value :: "(string \<Rightarrow> 64 word) \<Rightarrow> nat \<Rightarrow> string \<Rightarrow> (pyval \<times> string) option"
and parse_elems :: "(string \<Rightarrow> 64 word) \<Rightarrow> nat \<Rightarrow> string \<Rightarrow> (pyval list \<times> string) option"
and parse_members :: "(string \<Rightarrow> 64 word) \<Rightarrow> nat \<Rightarrow> string \<Rightarrow> ((string \<times> pyval) list \<times> string) option"
where
  "parse_value F 0 text = None"
| "parse_value F (Suc n) text =
     (case text of
        [] \<Rightarrow> None
      | c # cs \<Rightarrow>
          if c = CHR 0x22 then map_option (\<lambda>(s, r). (PStr s, r)) (scan_string cs)
          else if c = CHR ''{'' then
            (case skip_ws cs of
               [] \<Rightarrow> None
             | d # ds \<Rightarrow>
                 if d = CHR ''}'' then Some (PDict [], ds)
                 else map_option
                        (\<lambda>(kvs, r). (PDict (fold (\<lambda>kv d. dict_set d (fst kv) (snd kv)) kvs []), r))
                        (parse_members F n (d # ds)))
          else if c = CHR ''['' then
            (case skip_ws cs of
               [] \<Rightarrow> None
             | d # ds \<Rightarrow>
                 if d = CHR '']'' then Some (PList [], ds)
                 else map_option (\<lambda>(vs, r). (PList vs, r)) (parse_elems F n (d # ds)))
          else if prefix ''null'' text then Some (PNone, drop 4 text)
          else if prefix ''true'' text then Some (PBool True, drop 4 text)
          else if prefix ''false'' text then Some (PBool False, drop 5 text)
          else scan_number F text)"
| "parse_elems F 0 text = None"
| "parse_elems F (Suc n) text =
     (case parse_value F n text of
        None \<Rightarrow> None
      | Some (v, r) \<Rightarrow>
          (case skip_ws r of
             [] \<Rightarrow> None
           | c # cs \<Rightarrow>
               if c = CHR '']'' then Some ([v], cs)
               else if c = CHR '','' then
                 map_option (\<lambda>(vs, r'). (v # vs, r')) (parse_elems F n (skip_ws cs))
               else None))"
| "parse_members F 0 text = None"
| "parse_members F (Suc n) text =
     (case text of
        [] \<Rightarrow> None
      | q # cs \<Rightarrow>
          if q = CHR 0x22 then
            (case scan_string cs of
               None \<Rightarrow> None
             | Some (k, r) \<Rightarrow>
                 (case skip_ws r of
                    [] \<Rightarrow> None
                  | c # r1 \<Rightarrow>
                      if c = CHR '':'' then
                        (case parse_value F n (skip_ws r1) of
                           None \<Rightarrow> None
                         | Some (v, r2) \<Rightarrow>
                             (case skip_ws r2 of
                                [] \<Rightarrow> None
                              | c' # r3 \<Rightarrow>
                                  if c' = CHR ''}'' then Some ([(k, v)], r3)
                                  else if c' = CHR '','' then
                                    map_option (\<lambda>(kvs, r'). ((k, v) # kvs, r'))
                                      (parse_members F n (skip_ws r3))
                                  else None))
                      else None))
          else None)"

definition json_parse :: "(string \<Rightarrow> 64 word) \<Rightarrow> string \<Rightarrow> pyval option" where
  "json_parse float_of text =
     (case parse_value float_of (Suc (length text)) (skip_ws text) of
        None \<Rightarrow> None
      | Some (v, r) \<Rightarrow> if skip_ws r = [] then Some v else None)"

text \<open>
  What follows a value inside a document, and the contract of the printer of floats with
  the reader of floats: the text written for the float, followed by the end of the
  document or by a delimiter, is read back as that float. \<open>floats_ok\<close> asks it of every
  float of a payload.
\<close>

definition value_end :: "string \<Rightarrow> bool" where
  "value_end r = (case r of [] \<Rightarrow> True | c # _ \<Rightarrow> c = CHR '','' \<or> c = CHR '']'' \<or> c = CHR ''}'')"

definition float_ok :: "pylib \<Rightarrow> 64 word \<Rightarrow> bool" where
  "float_ok L x =
     (\<forall>r. value_end r \<longrightarrow> parse_value (float_of_str L) (Suc 0) (float_repr L x @ r) = Some (PFloat x, r))"

fun floats_ok :: "pylib \<Rightarrow> pyval \<Rightarrow> bool" where
  "floats_ok L (PFloat x) = float_ok L x"
| "floats_ok L (PList xs) = list_all (floats_ok L) xs"
| "floats_ok L (PDict kvs) = list_all (\<lambda>kv. floats_ok L (snd kv)) kvs"
| "floats_ok L _ = True"

text \<open>
  Two notions for the proofs: the characters a value can start with, and a text that the
  reader reads back as a given value whatever delimiter follows.
\<close>

definition value_start :: "char \<Rightarrow> bool" where
  "value_start c = (c \<in> set (CHR 0x22 # ''{[ntf-0123456789NI''))"

definition reads_back :: "(string \<Rightarrow> 64 word) \<Rightarrow> string \<Rightarrow> pyval \<Rightarrow> bool" where
  "reads_back F t v =
     ((\<exists>c cs. t = c # cs \<and> value_start c) \<and>
      (\<forall>n r. value_end r \<longrightarrow> length t \<le> n \<longrightarrow> parse_value F n (t @ r) = Some (v, r)))"

section \<open>Sequencing and \<^verbatim>\<open>try\<close>/\<^verbatim>\<open>except\<close>\<close>

text \<open>
  \<open>bind_io\<close> runs the next statement unless the previous one raised; \<open>except_as\<close> is a
  \<^verbatim>\<open>try\<close> block whose handler \<^verbatim>\<open>except Exception as e\<close> raises \<open>h e\<close> instead. The
  handlers also write a line to the module's logger, which is not part of the state.
\<close>

definition bind_io ::
  "(exn + 'a) \<times> world \<Rightarrow> ('a \<Rightarrow> world \<Rightarrow> (exn + 'b) \<times> world) \<Rightarrow> (exn + 'b) \<times> world" where
  "bind_io r f = (case r of (Inl e, w) \<Rightarrow> (Inl e, w) | (Inr x, w) \<Rightarrow> f x w)"

definition except_as :: "(exn \<Rightarrow> exn) \<Rightarrow> (exn + 'a) \<times> world \<Rightarrow> (exn + 'a) \<times> world" where
  "except_as h r = (case r of (Inl e, w) \<Rightarrow> (Inl (h e), w) | (Inr x, w) \<Rightarrow> (Inr x, w))"

text \<open>
  The truth value of an optional string, as \<^verbatim>\<open>if password:\<close> and \<^verbatim>\<open>if not password:\<close>
  take it: \<^verbatim>\<open>None\<close> and the empty string are false. The result is the string when
  it is true.
\<close>

fun truthy :: "string option \<Rightarrow> string option" where
  "truthy None = None"
| "truthy (Some s) = (if s = [] then None else Some s)"

definition fernet_key_error :: exn where
  "fernet_key_error = ValueError ''Fernet key must be 32 url-safe base64-encoded bytes.''"

section \<open>\<^verbatim>\<open>config_utils.py\<close>\<close>

definition encrypt_config :: "pylib \<Rightarrow> pydict \<Rightarrow> bytes \<Rightarrow> world \<Rightarrow> (exn + bytes) \<times> world" where
  "encrypt_config L config key w =
     (if \<not> fernet_key_ok L key then (Inl fernet_key_error, w)
      else let (iv, w1) = os_urandom 16 w
           in (Inr (fernet_encrypt L key (clock w1) iv (str_encode (json_dumps L (PDict config)))),
               w1))"

definition decrypt_config :: "pylib \<Rightarrow> bytes \<Rightarrow> bytes \<Rightarrow> exn + pyval" where
  "decrypt_config L encrypted_data key =
     (if \<not> fernet_key_ok L key then Inl fernet_key_error
      else case fernet_decrypt L key encrypted_data of
             None \<Rightarrow> Inl InvalidToken
           | Some plain \<Rightarrow> json_loads_bytes L plain)"

definition load_config :: "pylib \<Rightarrow> string option \<Rightarrow> world \<Rightarrow> (exn + pyval) \<times> world" where
  "load_config L config_path w =
     (let cp = (case config_path of None \<Rightarrow> ''config/config.json'' | Some p \<Rightarrow> p);
          encrypted_path = cp @ ''.enc''
      in except_as (\<lambda>e. ConfigError (''Failed to load configuration: '' @ exn_str e))
           (if path_exists encrypted_path w then
              (case truthy (getenv ''CONFIG_PASSWORD'' w) of
                 None \<Rightarrow> (Inl (ConfigError ''CONFIG_PASSWORD environment variable not set''), w)
               | Some password \<Rightarrow>
                   let salt_path = cp @ ''.salt'' in
                   if \<not> path_exists salt_path w then
                     (Inl (ConfigError ''Salt file not found''), w)
                   else
                     bind_io (read_file salt_path w) (\<lambda>salt w1.
                       let ((key, _), w2) = generate_key L password (Some salt) w1 in
                       bind_io (read_file encrypted_path w2) (\<lambda>encrypted_data w3.
                         (decrypt_config L encrypted_data key, w3))))
            else
              bind_io (read_file cp w) (\<lambda>raw w1. (json_loads_bytes L raw, w1))))"

definition save_config ::
  "pylib \<Rightarrow> pydict \<Rightarrow> string option \<Rightarrow> string option \<Rightarrow> world \<Rightarrow> (exn + unit) \<times> world" where
  "save_config L config config_path password w =
     (let cp = (case config_path of None \<Rightarrow> ''config/config.json'' | Some p \<Rightarrow> p)
      in except_as (\<lambda>e. ConfigError (''Failed to save configuration: '' @ exn_str e))
           (case truthy password of
              Some pw \<Rightarrow>
                let ((key, salt), w1) = generate_key L pw None w;
                    salt_path = cp @ ''.salt''
                in bind_io (write_file salt_path salt w1) (\<lambda>_ w2.
                     bind_io (encrypt_config L config key w2) (\<lambda>encrypted_data w3.
                       let encrypted_path = cp @ ''.enc'' in
                       bind_io (write_file encrypted_path encrypted_data w3) (\<lambda>_ w4.
                         if path_exists cp w4 then remove_file cp w4 else (Inr (), w4))))
            | None \<Rightarrow>
                write_file cp (str_encode (json_dumps_indent4 L (PDict config))) w))"

section \<open>\<^verbatim>\<open>secure_data_utils.py\<close>\<close>

definition encrypt_data :: "pylib \<Rightarrow> pydict \<Rightarrow> bytes \<Rightarrow> world \<Rightarrow> (exn + bytes) \<times> world" where
  "encrypt_data L data key w =
     except_as (\<lambda>e. SecureDataError (''Failed to encrypt data: '' @ exn_str e))
       (if \<not> fernet_key_ok L key then (Inl fernet_key_error, w)
        else let (iv, w1) = os_urandom 16 w
             in (Inr (fernet_encrypt L key (clock w1) iv (str_encode (json_dumps L (PDict data)))),
                 w1))"

definition decrypt_data :: "pylib \<Rightarrow> bytes \<Rightarrow> bytes \<Rightarrow> exn + pyval" where
  "decrypt_data L encrypted_data key =
     (case (if \<not> fernet_key_ok L key then Inl fernet_key_error
            else case fernet_decrypt L key encrypted_data of
                   None \<Rightarrow> Inl InvalidToken
                 | Some plain \<Rightarrow> json_loads_bytes L plain) of
        Inl e \<Rightarrow> Inl (SecureDataError (''Failed to decrypt data: '' @ exn_str e))
      | Inr v \<Rightarrow> Inr v)"

definition secure_save ::
  "pylib \<Rightarrow> pydict \<Rightarrow> string \<Rightarrow> string \<Rightarrow> world \<Rightarrow> (exn + unit) \<times> world" where
  "secure_save L data filepath password w =
     except_as (\<lambda>e. SecureDataError (''Failed to save data securely: '' @ exn_str e))
       (let ((key, salt), w1) = derive_key L password None w
        in bind_io (encrypt_data L data key w1) (\<lambda>encrypted_data w2.
             let salt_path = filepath @ ''.salt'' in
             bind_io (write_file salt_path salt w2) (\<lambda>_ w3.
               write_file filepath encrypted_data w3)))"

definition secure_load :: "pylib \<Rightarrow> string \<Rightarrow> string \<Rightarrow> world \<Rightarrow> (exn + pyval) \<times> world" where
  "secure_load L filepath password w =
     except_as (\<lambda>e. SecureDataError (''Failed to load data securely: '' @ exn_str e))
       (let salt_path = filepath @ ''.salt'' in
        if \<not> path_exists salt_path w then (Inl (SecureDataError ''Salt file not found''), w)
        else
          bind_io (read_file salt_path w) (\<lambda>salt w1.
            let ((key, _), w2) = derive_key L password (Some salt) w1 in
            bind_io (read_file filepath w2) (\<lambda>encrypted_data w3.
              (decrypt_data L encrypted_data key, w3))))"

text \<open>
  \<^verbatim>\<open>hmac.compare_digest\<close> on two strings: equality, and \<^verbatim>\<open>TypeError\<close> when one of them
  has a character that is not ASCII.
\<close>

definition compare_digest :: "string \<Rightarrow> string \<Rightarrow> exn + bool" where
  "compare_digest a b =
     (if list_all (\<lambda>c. (of_char c :: nat) < 128) (a @ b) then Inr (a = b)
      else Inl (TypeError ''comparing strings with non-ASCII characters is not supported''))"

text \<open>The signature \<^verbatim>\<open>verify_data_integrity\<close> computes before it compares.\<close>

definition calculated_signature :: "pylib \<Rightarrow> string \<Rightarrow> pydict \<Rightarrow> string" where
  "calculated_signature L secret_key data =
     hmac_sha256_hex L (str_encode secret_key) (str_encode (json_dumps_sorted L (PDict data)))"

definition verify_data_integrity :: "pylib \<Rightarrow> pydict \<Rightarrow> string \<Rightarrow> world \<Rightarrow> exn + bool" where
  "verify_data_integrity L data signature w =
     (case (case truthy (getenv ''DATA_INTEGRITY_KEY'' w) of
              None \<Rightarrow> Inl (SecureDataError ''DATA_INTEGRITY_KEY environment variable not set'')
            | Some secret_key \<Rightarrow>
                compare_digest (calculated_signature L secret_key data) signature) of
        Inl e \<Rightarrow> Inl (SecureDataError (''Failed to verify data integrity: '' @ exn_str e))
      | Inr ok \<Rightarrow> Inr ok)"

section \<open>Running the model\<close>

text \<open>
  \<open>new_events w w'\<close> is what a call that took the world from \<open>w\<close> to \<open>w'\<close> appended
  to the trace. \<open>save_salt\<close> and \<open>save_token\<close> name the salt a save draws and the token it
  builds: the first 16 bytes of the random source, and the encryption of the serialized
  payload under the key derived from that salt, with the next 16 random bytes.
\<close>

definition new_events :: "world \<Rightarrow> world \<Rightarrow> io_event list" where
  "new_events w w' = drop (length (trace w)) (trace w')"

definition raised_type :: "(exn + 'a) \<times> world \<Rightarrow> string option" where
  "raised_type r = (case fst r of Inl e \<Rightarrow> Some (exn_type e) | Inr _ \<Rightarrow> None)"

definition save_salt :: "world \<Rightarrow> bytes" where
  "save_salt w = fst (os_urandom 16 w)"

definition save_token :: "pylib \<Rightarrow> pydict \<Rightarrow> string \<Rightarrow> world \<Rightarrow> bytes" where
  "save_token L config pw w =
     (let ((key, salt), w1) = generate_key L pw None w;
          (iv, w2) = os_urandom 16 w1
      in fernet_encrypt L key (clock w) iv (str_encode (json_dumps L (PDict config))))"

text \<open>
  Concrete inputs for the instances below: a stand-in for the libraries (a key derivation
  that returns bytes of the requested length, a cipher whose token carries the key and the
  plain text, a parser that knows \<^verbatim>\<open>{}\<close>), an empty disk, a disk with no room for the
  token file, a disk with a legacy file beside a salt file, disks with a token file but
  no password or no salt file, a disk where the path asked for lies under a regular file,
  a path with a NUL byte, and a disk with a legacy file alone. The theorems are about every library and every
  world; these only instantiate them.
\<close>

definition stub_lib :: pylib where
  "stub_lib =
     \<lparr>pbkdf2_hmac_sha256 = (\<lambda>n iters salt pw. take n (pw @ salt @ replicate n 0)),
      fernet_key_ok = (\<lambda>key. length key = 44),
      fernet_encrypt = (\<lambda>key time iv data. key @ iv @ data),
      fernet_decrypt = (\<lambda>key token. if take 44 token = key then Some (drop 60 token) else None),
      hmac_sha256_hex = (\<lambda>key msg. map hex_digit (map unat (key @ msg))),
      json_loads = (\<lambda>text. if text = ''{}'' then Inr (PDict []) else Inl ''Expecting value''),
      bytes_decode = (\<lambda>b. Inr (map (\<lambda>x. char_of (unat x)) b)),
      float_repr = (\<lambda>x. ''0.0''),
      float_of_str = (\<lambda>text. 0)\<rparr>"

definition w_empty :: world where
  "w_empty = \<lparr>files = Map.empty, environ = Map.empty, read_fault = Map.empty,
     unwritable = {}, no_space = {}, undeletable = {},
     urandom_src = (\<lambda>i. of_nat i), clock = 0, trace = []\<rparr>"

definition w_full_disk :: world where
  "w_full_disk = w_empty\<lparr>files := [''cfg.salt'' \<mapsto> [7, 7], ''cfg.enc'' \<mapsto> [8, 8, 8]],
                          no_space := {''cfg.enc''}\<rparr>"

definition w_stale_salt :: world where
  "w_stale_salt = w_empty\<lparr>files := [''cfg.salt'' \<mapsto> [1, 2], ''cfg'' \<mapsto> str_encode ''{}'']\<rparr>"

definition w_no_password :: world where
  "w_no_password = w_empty\<lparr>files := [''cfg.enc'' \<mapsto> [1, 2]]\<rparr>"

definition w_no_salt :: world where
  "w_no_salt = w_empty\<lparr>files := [''cfg.enc'' \<mapsto> [1, 2]],
                      environ := [''CONFIG_PASSWORD'' \<mapsto> ''pw'']\<rparr>"

definition w_under_file :: world where
  "w_under_file = w_empty\<lparr>files := [''cfg'' \<mapsto> str_encode ''{}''],
                           read_fault := [''cfg/x'' \<mapsto> NotADirectoryError ''cfg/x'']\<rparr>"

definition w_nul_path :: world where
  "w_nul_path = w_empty\<lparr>read_fault :=
                           [[CHR ''c'', CHR 0x00] \<mapsto> ValueError ''embedded null byte'']\<rparr>"

definition w_legacy :: world where
  "w_legacy = w_empty\<lparr>files := [''cfg'' \<mapsto> str_encode ''{}'']\<rparr>"

text \<open>
  A second stand-in, for payloads with content: its \<^verbatim>\<open>decode\<close> is UTF-8 for code points
  below 256, its \<open>json_loads\<close> is the reference reader, and it prints and reads the float
  \<^verbatim>\<open>1.5\<close>.
\<close>

fun utf8_decode :: "bytes \<Rightarrow> string option" where
  "utf8_decode [] = Some []"
| "utf8_decode [b] = (if unat b < 128 then Some [char_of (unat b)] else None)"
| "utf8_decode (b # c # bs) =
     (if unat b < 128 then map_option ((#) (char_of (unat b))) (utf8_decode (c # bs))
      else if (unat b = 194 \<or> unat b = 195) \<and> 128 \<le> unat c \<and> unat c < 192
      then map_option ((#) (char_of ((unat b - 192) * 64 + (unat c - 128)))) (utf8_decode bs)
      else None)"

definition codec_float_of :: "string \<Rightarrow> 64 word" where
  "codec_float_of s = (if s = ''1.5'' then 0x3FF8000000000000 else 0)"

definition codec_lib :: pylib where
  "codec_lib = stub_lib
     \<lparr>json_loads := (\<lambda>text. case json_parse codec_float_of text of
                                 Some v \<Rightarrow> Inr v
                               | None \<Rightarrow> Inl ''Expecting value''),
      bytes_decode := (\<lambda>b. case utf8_decode b of
                              Some s \<Rightarrow> Inr s
                            | None \<Rightarrow> Inl ''invalid start byte''),
      float_repr := (\<lambda>x. if x = 0x3FF8000000000000 then ''1.5'' else ''0.0''),
      float_of_str := codec_float_of\<rparr>"

definition payload_mixed :: pydict where
  "payload_mixed =
     [(''name'', PStr (''caf'' @ [CHR 0xE9, CHR '' '', CHR 0x22, CHR 0x5C, CHR 0x0A, CHR 0x7F])),
      (''limits'', PList [PInt (- 12), PInt 0, PInt 1007, PFloat 0x3FF8000000000000,
                          PNone, PBool True, PBool False]),
      (''nested'', PDict [(''k'', PList []), (''e'', PDict [(''deep'', PList [PStr []])])])]"

section \<open>Payloads that are equal as mappings\<close>

text \<open>
  Two values are the same payload when they differ at most in the order of the items of
  their dictionaries, at any depth: lists are the same item by item, in order;
  dictionaries have the same keys and the same payload under each key; everything else
  is the same when equal.
\<close>

function same_payload :: "pyval \<Rightarrow> pyval \<Rightarrow> bool" where
  "same_payload (PList xs) (PList ys) =
     (length xs = length ys \<and> list_all (\<lambda>xy. same_payload (fst xy) (snd xy)) (zip xs ys))"
| "same_payload (PDict a) (PDict b) =
     (set (map fst a) = set (map fst b) \<and>
      list_all (\<lambda>kv. case map_of b (fst kv) of
                        None \<Rightarrow> False
                      | Some v' \<Rightarrow> same_payload (snd kv) v') a)"
| "same_payload PNone y = (y = PNone)"
| "same_payload (PBool b) y = (y = PBool b)"
| "same_payload (PInt i) y = (y = PInt i)"
| "same_payload (PFloat x) y = (y = PFloat x)"
| "same_payload (PStr s) y = (y = PStr s)"
| "same_payload (PList xs) PNone = False"
| "same_payload (PList xs) (PBool b) = False"
| "same_payload (PList xs) (PInt i) = False"
| "same_payload (PList xs) (PFloat x) = False"
| "same_payload (PList xs) (PStr s) = False"
| "same_payload (PList xs) (PDict b) = False"
| "same_payload (PDict a) PNone = False"
| "same_payload (PDict a) (PBool b) = False"
| "same_payload (PDict a) (PInt i) = False"
| "same_payload (PDict a) (PFloat x) = False"
| "same_payload (PDict a) (PStr s) = False"
| "same_payload (PDict a) (PList ys) = False"
  by pat_completeness auto
termination
proof (relation "measure (\<lambda>(x, y). size x)", goal_cases)
  case 1 show ?case by simp
next
  case (2 xs ys xy)
  then have "(fst xy, snd xy) \<in> set (zip xs ys)" by simp
  then have "fst xy \<in> set xs" by (rule set_zip_leftD)
  then show ?case using size_list_member [of "fst xy" xs] by (simp add: case_prod_beta)
next
  case (3 a b kv v')
  then show ?case using size_dict_member [of kv a] by simp
qed

declare same_payload.simps [simp del]

text \<open>
  Concrete inputs: a world in which the integrity secret is set, and one payload built
  in two orders of insertion, at both levels.
\<close>

definition w_signing :: world where
  "w_signing = w_empty\<lparr>environ := [''DATA_INTEGRITY_KEY'' \<mapsto> ''k1'']\<rparr>"

definition payload_ab :: pydict where
  "payload_ab = [(''a'', PInt 1), (''b'', PDict [(''x'', PStr ''u''), (''y'', PNone)])]"

definition payload_ba :: pydict where
  "payload_ba = [(''b'', PDict [(''y'', PNone), (''x'', PStr ''u'')]), (''a'', PInt 1)]"

section \<open>The redactor on a heap of mutable objects\<close>

text \<open>
  Whether \<^verbatim>\<open>sanitize_sensitive_data\<close> changes its argument cannot be asked of a function
  on values. Here dictionaries and lists are objects in a heap, addressed by their
  index, and a value is an immutable scalar or a reference; a new object is put at the
  end of the heap. \<^verbatim>\<open>sanitize_dict\<close> allocates \<^verbatim>\<open>result = {}\<close>, loops over the items its
  argument has on entry, and stores into \<^verbatim>\<open>result\<close>; a value that is neither a dictionary
  nor a string is stored as it is, so a list is shared between argument and result.
  The first argument bounds the depth of the recursion, as the interpreter's recursion
  limit does: at depth zero the call fails (\<^verbatim>\<open>RecursionError\<close>), as it does when its
  argument is not a dictionary, and the heap built so far is returned with the failure.
\<close>

type_synonym addr = nat

datatype hval = HNone | HBool bool | HInt int | HFloat "64 word" | HStr string | HRef addr

datatype hobj = ODict "(string \<times> hval) list" | OList "hval list"

type_synonym heap = "hobj list"

definition lookup :: "heap \<Rightarrow> addr \<Rightarrow> hobj option" where
  "lookup h a = (if a < length h then Some (h ! a) else None)"

definition alloc :: "hobj \<Rightarrow> heap \<Rightarrow> addr \<times> heap" where
  "alloc obj h = (length h, h @ [obj])"

definition store_item :: "heap \<Rightarrow> addr \<Rightarrow> string \<Rightarrow> hval \<Rightarrow> heap" where
  "store_item h r key v =
     (case lookup h r of
        Some (ODict items) \<Rightarrow> h[r := ODict (dict_set items key v)]
      | _ \<Rightarrow> h)"

fun is_dict_ref :: "heap \<Rightarrow> hval \<Rightarrow> addr option" where
  "is_dict_ref h (HRef a) = (case lookup h a of Some (ODict _) \<Rightarrow> Some a | _ \<Rightarrow> None)"
| "is_dict_ref h _ = None"

fun sanitize_dict_heap :: "nat \<Rightarrow> heap \<Rightarrow> addr \<Rightarrow> addr option \<times> heap"
  and sanitize_items_heap :: "nat \<Rightarrow> heap \<Rightarrow> addr \<Rightarrow> (string \<times> hval) list \<Rightarrow> bool \<times> heap"
  and sanitize_value_heap :: "nat \<Rightarrow> heap \<Rightarrow> string \<Rightarrow> hval \<Rightarrow> hval option \<times> heap"
where
  "sanitize_dict_heap 0 h d = (None, h)"
| "sanitize_dict_heap (Suc n) h d =
     (case lookup h d of
        Some (ODict items) \<Rightarrow>
          (let (result, h1) = alloc (ODict []) h in
           case sanitize_items_heap n h1 result items of
             (True, h2) \<Rightarrow> (Some result, h2)
           | (False, h2) \<Rightarrow> (None, h2))
      | _ \<Rightarrow> (None, h))"
| "sanitize_items_heap n h result [] = (True, h)"
| "sanitize_items_heap n h result ((key, value) # rest) =
     (case sanitize_value_heap n h key value of
        (Some v', h') \<Rightarrow> sanitize_items_heap n (store_item h' result key v') result rest
      | (None, h') \<Rightarrow> (False, h'))"
| "sanitize_value_heap n h key value =
     (case is_dict_ref h value of
        Some a \<Rightarrow>
          (case sanitize_dict_heap n h a of
             (Some r', h') \<Rightarrow> (Some (HRef r'), h')
           | (None, h') \<Rightarrow> (None, h'))
      | None \<Rightarrow>
          (case value of
             HStr s \<Rightarrow> (Some (if is_sensitive key then HStr (mask_value s) else value), h)
           | _ \<Rightarrow> (Some value, h)))"

fun repr_on :: "(addr \<Rightarrow> bool) \<Rightarrow> heap \<Rightarrow> hval \<Rightarrow> pyval \<Rightarrow> bool" where
  "repr_on A h v PNone = (v = HNone)"
| "repr_on A h v (PBool b) = (v = HBool b)"
| "repr_on A h v (PInt i) = (v = HInt i)"
| "repr_on A h v (PFloat x) = (v = HFloat x)"
| "repr_on A h v (PStr s) = (v = HStr s)"
| "repr_on A h v (PList ts) =
     (case v of
        HRef a \<Rightarrow> A a \<and>
          (case lookup h a of
             Some (OList vs) \<Rightarrow> list_all2 (\<lambda>v' t. repr_on A h v' t) vs ts
           | _ \<Rightarrow> False)
      | _ \<Rightarrow> False)"
| "repr_on A h v (PDict kts) =
     (case v of
        HRef a \<Rightarrow> A a \<and>
          (case lookup h a of
             Some (ODict kvs) \<Rightarrow>
               list_all2 (\<lambda>kv kt. fst kv = fst kt \<and> repr_on A h (snd kv) (snd kt)) kvs kts
           | _ \<Rightarrow> False)
      | _ \<Rightarrow> False)"

fun dict_depth :: "pyval \<Rightarrow> nat" where
  "dict_depth (PDict kts) = Suc (fold max (map (\<lambda>kt. dict_depth (snd kt)) kts) 0)"
| "dict_depth _ = 0"

text \<open>
  \<open>repr_on A h v t\<close> above: in the heap \<open>h\<close> the value \<open>v\<close> is the payload \<open>t\<close>, and every
  object read on the way has its address in \<open>A\<close>. \<open>represents\<close> puts no bound on the
  addresses. \<open>dict_depth\<close> is the number of nested calls of \<^verbatim>\<open>sanitize_dict\<close> a payload
  needs: dictionaries directly inside dictionaries, lists not entered.
\<close>

definition represents :: "heap \<Rightarrow> hval \<Rightarrow> pyval \<Rightarrow> bool" where
  "represents h v t = repr_on (\<lambda>_. True) h v t"

definition sanitize_sensitive_data_heap :: "nat \<Rightarrow> heap \<Rightarrow> addr \<Rightarrow> addr option \<times> heap" where
  "sanitize_sensitive_data_heap n h data = sanitize_dict_heap n h data"

text \<open>
  Notions of the proofs: the value the loop body stores for an item, the items of a
  dictionary object against the items of a payload, and the statement that calls at
  depth \<open>n\<close> on objects below address \<open>M\<close> succeed with the right result.
\<close>

definition redact_value :: "string \<Rightarrow> pyval \<Rightarrow> pyval" where
  "redact_value key v =
     (case v of
        PDict d' \<Rightarrow> PDict (sanitize_dict d')
      | PStr s \<Rightarrow> if is_sensitive key then PStr (mask_value s) else PStr s
      | other \<Rightarrow> other)"

definition items_repr :: "(addr \<Rightarrow> bool) \<Rightarrow> heap \<Rightarrow> (string \<times> hval) list \<Rightarrow> pydict \<Rightarrow> bool" where
  "items_repr A h kvs kts =
     list_all2 (\<lambda>kv kt. fst kv = fst kt \<and> repr_on A h (snd kv) (snd kt)) kvs kts"

definition dict_call_ok :: "nat \<Rightarrow> nat \<Rightarrow> bool" where
  "dict_call_ok M n =
     (\<forall>h d kts. repr_on (\<lambda>a. a < M) h (HRef d) (PDict kts) \<and> M \<le> length h \<and>
                 dict_depth (PDict kts) \<le> n \<longrightarrow>
        (\<exists>r h'. sanitize_dict_heap n h d = (Some r, h') \<and>
                 repr_on (\<lambda>a. a < M \<or> length h \<le> a) h' (HRef r) (PDict (sanitize_dict kts))))"

text \<open>
  A concrete heap: a dictionary with a secret string, a list and a nested dictionary,
  the list holding the nested dictionary too; and the payload it is.
\<close>

definition heap0 :: heap where
  "heap0 = [ODict [(''password'', HStr ''hunter2''), (''tags'', HRef 1), (''db'', HRef 2)],
            OList [HRef 2, HInt 7],
            ODict [(''api_key'', HStr ''abcdefgh'')]]"

definition tree0 :: pydict where
  "tree0 = [(''password'', PStr ''hunter2''),
            (''tags'', PList [PDict [(''api_key'', PStr ''abcdefgh'')], PInt 7]),
            (''db'', PDict [(''api_key'', PStr ''abcdefgh'')])]"

section \<open>Proofs: the redactor\<close>

lemma dict_set_fresh:
  "k \<notin> fst ` set acc \<Longrightarrow> dict_set acc k v = acc @ [(k, v)]"
  by (induction acc) auto

lemma fold_dict_set_map:
  "distinct (map fst acc @ map fst d) \<Longrightarrow>
   fold (\<lambda>kv result. dict_set result (fst kv) (f kv)) d acc = acc @ map (\<lambda>kv. (fst kv, f kv)) d"
proof (induction d arbitrary: acc)
  case Nil then show ?case by simp
next
  case (Cons kv d)
  show ?case using Cons.prems Cons.IH[of "acc @ [(fst kv, f kv)]"] by (auto simp: dict_set_fresh)
qed

lemma sanitize_dict_map:
  assumes "distinct (map fst d)"
  shows "sanitize_dict d =
     map (\<lambda>kv. (fst kv,
            case snd kv of
              PDict d' \<Rightarrow> PDict (sanitize_dict d')
            | PStr s \<Rightarrow> if is_sensitive (fst kv) then PStr (mask_value s) else PStr s
            | other \<Rightarrow> other)) d"
  using assms by (subst sanitize_dict.simps) (simp add: fold_dict_set_map[where acc="[]", simplified])

lemma str_in_iff: "str_in sub s \<longleftrightarrow> (\<exists>pre suf. s = pre @ sub @ suf)"
proof (induction s)
  case Nil then show ?case by auto
next
  case (Cons c cs)
  show ?case
  proof
    assume "str_in sub (c # cs)"
    then consider "prefix sub (c # cs)" | "str_in sub cs" by auto
    then show "\<exists>pre suf. c # cs = pre @ sub @ suf"
    proof cases
      case 1 then obtain suf where "c # cs = sub @ suf" by (auto simp: prefix_def)
      then have "c # cs = [] @ sub @ suf" by simp
      then show ?thesis by blast
    next
      case 2 then obtain pre suf where "cs = pre @ sub @ suf" using Cons.IH by blast
      then have "c # cs = (c # pre) @ sub @ suf" by simp
      then show ?thesis by blast
    qed
  next
    assume "\<exists>pre suf. c # cs = pre @ sub @ suf"
    then obtain pre suf where e: "c # cs = pre @ sub @ suf" by blast
    show "str_in sub (c # cs)"
    proof (cases pre)
      case Nil with e have "prefix sub (c # cs)" by (simp add: prefix_def)
      then show ?thesis by simp
    next
      case (Cons p ps) with e have "cs = ps @ sub @ suf" by simp
      then show ?thesis using Cons.IH by auto
    qed
  qed
qed

lemma lower_fields: "t \<in> set sensitive_fields \<Longrightarrow> lower t = t"
  by (auto simp: sensitive_fields_def lower_def lower_char_def)

lemma is_sensitive_iff: "is_sensitive key \<longleftrightarrow> spec_contains_term key"
proof -
  have "(\<exists>pre suf. lower key = pre @ t @ suf) \<longleftrightarrow> (\<exists>pre u suf. key = pre @ u @ suf \<and> lower u = t)" for t
    unfolding lower_def
  proof
    assume "\<exists>pre suf. map lower_char key = pre @ t @ suf"
    then obtain pre suf where "map lower_char key = pre @ t @ suf" by blast
    then have "map lower_char (take (length t) (drop (length pre) key)) = t"
      by (simp flip: take_map drop_map)
    moreover have "key = take (length pre) key @ take (length t) (drop (length pre) key)
                      @ drop (length t) (drop (length pre) key)"
      by (simp only: append_take_drop_id)
    ultimately obtain a b c where "key = a @ b @ c" "map lower_char b = t" by blast
    then show "\<exists>pre u suf. key = pre @ u @ suf \<and> map lower_char u = t" by blast
  next
    assume "\<exists>pre u suf. key = pre @ u @ suf \<and> map lower_char u = t"
    then obtain pre u suf where "key = pre @ u @ suf" "map lower_char u = t" by blast
    then have "map lower_char key = map lower_char pre @ t @ map lower_char suf" by simp
    then show "\<exists>pre suf. map lower_char key = pre @ t @ suf" by blast
  qed
  then show ?thesis
    by (auto simp: is_sensitive_def spec_contains_term_def list_ex_iff str_in_iff lower_fields)
qed

lemma mask_value_spec: "spec_masked s (mask_value s)"
  by (auto simp: spec_masked_def mask_value_def nth_append)

text \<open>
  Claim C8. For a payload with distinct keys, \<^verbatim>\<open>sanitize_sensitive_data\<close> returns the
  same keys in the same order, and entry by entry: a nested mapping is replaced by its own
  sanitized form; a string whose key contains, ignoring case, a term of the vocabulary is
  replaced by its masked form (all stars up to length four, otherwise the first two and
  last two characters around stars); every other value is returned as it is.
\<close>

theorem sanitize_spec:
  assumes "distinct (map fst d)"
  shows "list_all2
           (\<lambda>(k, v) (k', v'). k' = k \<and>
              (case v of
                 PDict d' \<Rightarrow> v' = PDict (sanitize_sensitive_data d')
               | PStr s \<Rightarrow> if spec_contains_term k then \<exists>m. v' = PStr m \<and> spec_masked s m
                           else v' = v
               | _ \<Rightarrow> v' = v))
           d (sanitize_sensitive_data d)"
  unfolding sanitize_sensitive_data_def sanitize_dict_map[OF assms] list_all2_map2
  by (rule list_all2_refl) (auto simp: is_sensitive_iff mask_value_spec split: pyval.splits)


theorem sanitize_spec_witness:
  "distinct (map fst [(''api_key'', PStr ''abcdefgh''), (''name'', PStr ''abcdefgh''),
       (''Auth_Token'', PStr ''ab''), (''retries'', PInt 3),
       (''db'', PDict [(''PassWord'', PStr ''hunter2''), (''host'', PStr ''localhost'')])]) \<and>
   sanitize_sensitive_data
      [(''api_key'', PStr ''abcdefgh''), (''name'', PStr ''abcdefgh''),
       (''Auth_Token'', PStr ''ab''), (''retries'', PInt 3),
       (''db'', PDict [(''PassWord'', PStr ''hunter2''), (''host'', PStr ''localhost'')])]
    = [(''api_key'', PStr ''ab****gh''), (''name'', PStr ''abcdefgh''),
       (''Auth_Token'', PStr ''**''), (''retries'', PInt 3),
       (''db'', PDict [(''PassWord'', PStr ''hu***r2''), (''host'', PStr ''localhost'')])]"
  using sanitize_spec [of "[(''api_key'', PStr ''abcdefgh''), (''name'', PStr ''abcdefgh''),
       (''Auth_Token'', PStr ''ab''), (''retries'', PInt 3),
       (''db'', PDict [(''PassWord'', PStr ''hunter2''), (''host'', PStr ''localhost'')])]"]
  by (simp add: sanitize_sensitive_data_def sanitize_dict.simps is_sensitive_def
        sensitive_fields_def lower_def lower_char_def mask_value_def)

text \<open>
  Claim C10. A value that is neither a mapping nor a string is stored in the result as it
  is: the redactor does not look inside lists, so a mapping inside a list keeps its
  strings even under a key of the vocabulary.
\<close>

theorem sanitize_skips_other_values:
  assumes "distinct (map fst d)" and "(k, v) \<in> set d"
    and "\<not> isinstance_dict v" and "\<not> isinstance_str v"
  shows "map_of (sanitize_sensitive_data d) k = Some v"
proof -
  let ?g = "\<lambda>kv. (fst kv,
            case snd kv of
              PDict d' \<Rightarrow> PDict (sanitize_dict d')
            | PStr s \<Rightarrow> if is_sensitive (fst kv) then PStr (mask_value s) else PStr s
            | other \<Rightarrow> other)"
  have "?g (k, v) = (k, v)" using assms(3,4) by (cases v) simp_all
  then have mem: "(k, v) \<in> set (map ?g d)" using assms(2) by force
  have "map fst (map ?g d) = map fst d" by (simp add: comp_def)
  then have dist: "distinct (map fst (map ?g d))" using assms(1) by (simp only:)
  have "map_of (map ?g d) k = Some v" by (rule map_of_is_SomeI [OF dist mem])
  then show ?thesis
    by (simp only: sanitize_sensitive_data_def sanitize_dict_map[OF assms(1)])
qed

theorem sanitize_skips_other_values_witness:
  "distinct (map fst [(''user'', PStr ''ada''),
       (''accounts'', PList [PDict [(''password'', PStr ''hunter2secret'')]])]) \<and>
   is_sensitive ''password'' \<and>
   map_of (sanitize_sensitive_data [(''user'', PStr ''ada''),
       (''accounts'', PList [PDict [(''password'', PStr ''hunter2secret'')]])]) ''accounts''
     = Some (PList [PDict [(''password'', PStr ''hunter2secret'')]])"
  using sanitize_skips_other_values [of "[(''user'', PStr ''ada''),
       (''accounts'', PList [PDict [(''password'', PStr ''hunter2secret'')]])]"
       "''accounts''" "PList [PDict [(''password'', PStr ''hunter2secret'')]]"]
  by (simp add: is_sensitive_def sensitive_fields_def lower_def lower_char_def)

section \<open>Proofs: loading\<close>

lemma append_ne_self [simp]: "p @ ''.enc'' \<noteq> p" "p @ ''.salt'' \<noteq> p" "p @ ''.salt'' \<noteq> p @ ''.enc''"
  by simp_all

lemma load_config_default_path:
  "load_config L None w = load_config L (Some ''config/config.json'') w"
  by (simp add: load_config_def)

lemma save_config_default_path:
  "save_config L config None password w
     = save_config L config (Some ''config/config.json'') password w"
  by (simp add: save_config_def)

text \<open>
  Claim C1, as the code has it. \<^verbatim>\<open>load_config\<close> opens the legacy file at the path exactly
  when \<^verbatim>\<open>{path}.enc\<close> is absent; \<^verbatim>\<open>{path}.salt\<close> is not consulted for that choice.
\<close>

theorem load_config_plaintext_iff:
  "OpenRead cp \<in> set (new_events w (snd (load_config L (Some cp) w)))
     \<longleftrightarrow> \<not> path_exists (cp @ ''.enc'') w"
  by (auto simp: new_events_def load_config_def except_as_def bind_io_def read_file_def log_ev_def
        generate_key_def Let_def split: option.splits prod.splits sum.splits if_splits)

text \<open>
  The claim as stated fails: with \<^verbatim>\<open>cfg.salt\<close> on the disk and no \<^verbatim>\<open>cfg.enc\<close>, the
  legacy file \<^verbatim>\<open>cfg\<close> is opened and its content returned.
\<close>

theorem load_config_plaintext_iff_counterexample:
  "path_exists ''cfg.salt'' w_stale_salt \<and>
   fst (load_config stub_lib (Some ''cfg'') w_stale_salt) = Inr (PDict []) \<and>
   trace (snd (load_config stub_lib (Some ''cfg'') w_stale_salt)) = [OpenRead ''cfg'']"
  by code_simp

lemma load_config_raises_ConfigError:
  "fst (load_config L p w) = Inl e \<Longrightarrow> exn_type e = ''ConfigError''"
  by (auto simp: load_config_def except_as_def Let_def split: prod.splits sum.splits)

lemma secure_load_raises_SecureDataError:
  "fst (secure_load L p pw w) = Inl e \<Longrightarrow> exn_type e = ''SecureDataError''"
  by (auto simp: secure_load_def except_as_def Let_def split: prod.splits sum.splits)

text \<open>
  Claim C2, as the code has it. Every failure of \<^verbatim>\<open>load_config\<close> is a \<^verbatim>\<open>ConfigError\<close>
  (and every failure of \<^verbatim>\<open>secure_load\<close> a \<^verbatim>\<open>SecureDataError\<close>); the failure modes differ
  in the message only. With \<^verbatim>\<open>{path}.enc\<close> present: the password variable unset or empty,
  and \<^verbatim>\<open>{path}.salt\<close> absent while the password is set, each have a message of their own.
  With \<^verbatim>\<open>{path}.enc\<close> absent the legacy file is opened, and the message is the prefix
  followed by the text of whatever exception \<^verbatim>\<open>open\<close> raised: that of
  \<^verbatim>\<open>FileNotFoundError\<close> when nothing but absence stands in the way, and otherwise that
  of the exception \<^verbatim>\<open>open\<close> raises for the path.
\<close>

theorem load_config_failures:
  "(\<forall>e. fst (load_config L (Some cp) w) = Inl e \<longrightarrow> exn_type e = ''ConfigError'') \<and>
   (path_exists (cp @ ''.enc'') w \<and> truthy (getenv ''CONFIG_PASSWORD'' w) = None \<longrightarrow>
      load_config L (Some cp) w =
        (Inl (ConfigError ''Failed to load configuration: CONFIG_PASSWORD environment variable not set''), w)) \<and>
   (path_exists (cp @ ''.enc'') w \<and> truthy (getenv ''CONFIG_PASSWORD'' w) \<noteq> None \<and>
    \<not> path_exists (cp @ ''.salt'') w \<longrightarrow>
      load_config L (Some cp) w =
        (Inl (ConfigError ''Failed to load configuration: Salt file not found''), w)) \<and>
   (\<not> path_exists (cp @ ''.enc'') w \<and> read_fault w cp = None \<and> \<not> path_exists cp w \<longrightarrow>
      fst (load_config L (Some cp) w) =
        Inl (ConfigError (''Failed to load configuration: [Errno 2] No such file or directory: ''
                            @ py_repr cp))) \<and>
   (\<forall>e. \<not> path_exists (cp @ ''.enc'') w \<and> read_fault w cp = Some e \<longrightarrow>
      fst (load_config L (Some cp) w) =
        Inl (ConfigError (''Failed to load configuration: '' @ exn_str e))) \<and>
   (\<forall>e. fst (secure_load L cp pw w) = Inl e \<longrightarrow> exn_type e = ''SecureDataError'')"
proof (intro conjI allI impI)
  fix e assume "fst (load_config L (Some cp) w) = Inl e"
  then show "exn_type e = ''ConfigError''" by (rule load_config_raises_ConfigError)
next
  fix e assume "fst (secure_load L cp pw w) = Inl e"
  then show "exn_type e = ''SecureDataError''" by (rule secure_load_raises_SecureDataError)
next
  assume "path_exists (cp @ ''.enc'') w \<and> truthy (getenv ''CONFIG_PASSWORD'' w) = None"
  then show "load_config L (Some cp) w =
        (Inl (ConfigError ''Failed to load configuration: CONFIG_PASSWORD environment variable not set''), w)"
    by (simp add: load_config_def except_as_def)
next
  assume "path_exists (cp @ ''.enc'') w \<and> truthy (getenv ''CONFIG_PASSWORD'' w) \<noteq> None \<and>
    \<not> path_exists (cp @ ''.salt'') w"
  then show "load_config L (Some cp) w =
        (Inl (ConfigError ''Failed to load configuration: Salt file not found''), w)"
    by (auto simp: load_config_def except_as_def)
next
  assume "\<not> path_exists (cp @ ''.enc'') w \<and> read_fault w cp = None \<and> \<not> path_exists cp w"
  then show "fst (load_config L (Some cp) w) =
        Inl (ConfigError (''Failed to load configuration: [Errno 2] No such file or directory: ''
                            @ py_repr cp))"
    by (simp add: load_config_def except_as_def bind_io_def read_file_def path_exists_def)
next
  fix e assume "\<not> path_exists (cp @ ''.enc'') w \<and> read_fault w cp = Some e"
  then show "fst (load_config L (Some cp) w) =
        Inl (ConfigError (''Failed to load configuration: '' @ exn_str e))"
    by (simp add: load_config_def except_as_def bind_io_def read_file_def path_exists_def)
qed

text \<open>
  The claim as stated fails: the three failures have one and the same type.
\<close>

theorem load_config_failures_counterexample:
  "raised_type (load_config stub_lib (Some ''cfg'') w_no_password) = Some ''ConfigError'' \<and>
   raised_type (load_config stub_lib (Some ''cfg'') w_no_salt) = Some ''ConfigError'' \<and>
   raised_type (load_config stub_lib (Some ''cfg'') w_empty) = Some ''ConfigError''"
  by code_simp

theorem load_config_failures_witness:
  "fst (load_config stub_lib (Some ''cfg'') w_no_password)
     = Inl (ConfigError ''Failed to load configuration: CONFIG_PASSWORD environment variable not set'') \<and>
   fst (load_config stub_lib (Some ''cfg'') w_no_salt)
     = Inl (ConfigError ''Failed to load configuration: Salt file not found'') \<and>
   fst (load_config stub_lib (Some ''cfg'') w_empty)
     = Inl (ConfigError (''Failed to load configuration: [Errno 2] No such file or directory: ''
                           @ [CHR 0x27] @ ''cfg'' @ [CHR 0x27])) \<and>
   fst (load_config stub_lib (Some ''cfg/x'') w_under_file)
     = Inl (ConfigError (''Failed to load configuration: [Errno 20] Not a directory: ''
                           @ [CHR 0x27] @ ''cfg/x'' @ [CHR 0x27])) \<and>
   fst (load_config stub_lib (Some [CHR ''c'', CHR 0x00]) w_nul_path)
     = Inl (ConfigError ''Failed to load configuration: embedded null byte'') \<and>
   fst (secure_load stub_lib ''cfg'' ''pw'' w_empty)
     = Inl (SecureDataError ''Failed to load data securely: Salt file not found'')"
proof -
  let ?wA = w_no_password
  let ?wB = w_no_salt
  have a: "path_exists (''cfg'' @ ''.enc'') ?wA \<and> truthy (getenv ''CONFIG_PASSWORD'' ?wA) = None"
    by code_simp
  have b: "path_exists (''cfg'' @ ''.enc'') ?wB \<and> truthy (getenv ''CONFIG_PASSWORD'' ?wB) \<noteq> None \<and>
           \<not> path_exists (''cfg'' @ ''.salt'') ?wB"
    by code_simp
  have c: "\<not> path_exists (''cfg'' @ ''.enc'') w_empty \<and> read_fault w_empty ''cfg'' = None \<and>
           \<not> path_exists ''cfg'' w_empty"
    by code_simp
  have d: "fst (secure_load stub_lib ''cfg'' ''pw'' w_empty)
     = Inl (SecureDataError ''Failed to load data securely: Salt file not found'')"
    by code_simp
  have e: "\<not> path_exists (''cfg/x'' @ ''.enc'') w_under_file \<and>
           read_fault w_under_file ''cfg/x'' = Some (NotADirectoryError ''cfg/x'')"
    by code_simp
  have f: "\<not> path_exists ([CHR ''c'', CHR 0x00] @ ''.enc'') w_nul_path \<and>
           read_fault w_nul_path [CHR ''c'', CHR 0x00] = Some (ValueError ''embedded null byte'')"
    by code_simp
  have r: "py_repr ''cfg'' = [CHR 0x27] @ ''cfg'' @ [CHR 0x27]"
    "exn_str (NotADirectoryError ''cfg/x'')
       = ''[Errno 20] Not a directory: '' @ [CHR 0x27] @ ''cfg/x'' @ [CHR 0x27]"
    "exn_str (ValueError ''embedded null byte'') = ''embedded null byte''"
    by code_simp+
  from a load_config_failures [of stub_lib "''cfg''" ?wA "''pw''"]
  have "load_config stub_lib (Some ''cfg'') ?wA =
        (Inl (ConfigError ''Failed to load configuration: CONFIG_PASSWORD environment variable not set''), ?wA)"
    by blast
  moreover from b load_config_failures [of stub_lib "''cfg''" ?wB "''pw''"]
  have "load_config stub_lib (Some ''cfg'') ?wB =
        (Inl (ConfigError ''Failed to load configuration: Salt file not found''), ?wB)"
    by blast
  moreover from c load_config_failures [of stub_lib "''cfg''" w_empty "''pw''"]
  have "fst (load_config stub_lib (Some ''cfg'') w_empty) =
        Inl (ConfigError (''Failed to load configuration: [Errno 2] No such file or directory: ''
                            @ py_repr ''cfg''))"
    by blast
  moreover from e load_config_failures [of stub_lib "''cfg/x''" w_under_file "''pw''"]
  have "fst (load_config stub_lib (Some ''cfg/x'') w_under_file) =
        Inl (ConfigError (''Failed to load configuration: ''
                            @ exn_str (NotADirectoryError ''cfg/x'')))"
    by blast
  moreover from f load_config_failures [of stub_lib "[CHR ''c'', CHR 0x00]" w_nul_path "''pw''"]
  have "fst (load_config stub_lib (Some [CHR ''c'', CHR 0x00]) w_nul_path) =
        Inl (ConfigError (''Failed to load configuration: ''
                            @ exn_str (ValueError ''embedded null byte'')))"
    by blast
  ultimately show ?thesis using d r by (simp only: fst_conv simp_thms append.simps)
qed

section \<open>Proofs: saving\<close>

lemma save_config_encrypted:
  assumes "truthy password = Some pw"
  shows "prefix (new_events w (snd (save_config L config (Some cp) password w)))
           [Truncate (cp @ ''.salt''), WriteFile (cp @ ''.salt'') (save_salt w),
            Truncate (cp @ ''.enc''), WriteFile (cp @ ''.enc'') (save_token L config pw w),
            RemoveFile cp]"
    and "files (snd (save_config L config (Some cp) password w)) (cp @ ''.enc'') \<noteq> files w (cp @ ''.enc'')
         \<Longrightarrow> files (snd (save_config L config (Some cp) password w)) (cp @ ''.salt'') = Some (save_salt w)"
    and "fst (save_config L config (Some cp) password w) = Inr () \<Longrightarrow>
         files (snd (save_config L config (Some cp) password w)) cp = None \<and>
         files (snd (save_config L config (Some cp) password w)) (cp @ ''.salt'') = Some (save_salt w) \<and>
         files (snd (save_config L config (Some cp) password w)) (cp @ ''.enc'')
           = Some (save_token L config pw w) \<and>
         new_events w (snd (save_config L config (Some cp) password w)) =
           [Truncate (cp @ ''.salt''), WriteFile (cp @ ''.salt'') (save_salt w),
            Truncate (cp @ ''.enc''), WriteFile (cp @ ''.enc'') (save_token L config pw w)]
           @ (if path_exists cp w then [RemoveFile cp] else [])"
  using assms
  by (auto simp: save_config_def except_as_def bind_io_def write_file_def remove_file_def
        encrypt_config_def generate_key_def os_urandom_def log_ev_def new_events_def
        save_salt_def save_token_def path_exists_def Let_def
      split: prod.splits sum.splits if_splits)

lemma save_config_plaintext:
  assumes "truthy password = None"
  shows "prefix (new_events w (snd (save_config L config (Some cp) password w)))
           [Truncate cp, WriteFile cp (str_encode (json_dumps_indent4 L (PDict config)))]"
  using assms
  by (auto simp: save_config_def except_as_def bind_io_def write_file_def
        log_ev_def new_events_def Let_def
      split: prod.splits sum.splits if_splits)

lemma secure_save_effects:
  shows "prefix (new_events w (snd (secure_save L data fp pw w)))
           [Truncate (fp @ ''.salt''), WriteFile (fp @ ''.salt'') (save_salt w),
            Truncate fp, WriteFile fp (save_token L data pw w)]"
    and "files (snd (secure_save L data fp pw w)) fp \<noteq> files w fp
         \<Longrightarrow> files (snd (secure_save L data fp pw w)) (fp @ ''.salt'') = Some (save_salt w)"
    and "fst (secure_save L data fp pw w) = Inr () \<Longrightarrow>
         files (snd (secure_save L data fp pw w)) fp = Some (save_token L data pw w) \<and>
         files (snd (secure_save L data fp pw w)) (fp @ ''.salt'') = Some (save_salt w)"
  by (auto simp: secure_save_def except_as_def bind_io_def write_file_def
        encrypt_data_def derive_key_def generate_key_def os_urandom_def log_ev_def new_events_def
        save_salt_def save_token_def path_exists_def Let_def
      split: prod.splits sum.splits if_splits)

text \<open>
  Claim C5. Whatever the outcome, the file operations of an encrypting \<^verbatim>\<open>save_config\<close>
  are an initial part of: write the salt file, write the token file, remove the legacy
  file; those of \<^verbatim>\<open>secure_save\<close> of: write the salt file, write the token file. So the
  token file is never touched before the new salt is on the disk: in the world a save
  leaves behind, failed or not, a token file that differs from the one before is paired
  with the salt of this save. A save without a password touches neither file.
\<close>

theorem save_writes_salt_before_token:
  "(truthy password = Some pw \<longrightarrow>
      prefix (new_events w (snd (save_config L config (Some cp) password w)))
        [Truncate (cp @ ''.salt''), WriteFile (cp @ ''.salt'') (save_salt w),
         Truncate (cp @ ''.enc''), WriteFile (cp @ ''.enc'') (save_token L config pw w),
         RemoveFile cp] \<and>
      (files (snd (save_config L config (Some cp) password w)) (cp @ ''.enc'') \<noteq> files w (cp @ ''.enc'')
         \<longrightarrow> files (snd (save_config L config (Some cp) password w)) (cp @ ''.salt'')
               = Some (save_salt w))) \<and>
   (truthy password = None \<longrightarrow>
      prefix (new_events w (snd (save_config L config (Some cp) password w)))
        [Truncate cp, WriteFile cp (str_encode (json_dumps_indent4 L (PDict config)))]) \<and>
   prefix (new_events w (snd (secure_save L config cp pw w)))
     [Truncate (cp @ ''.salt''), WriteFile (cp @ ''.salt'') (save_salt w),
      Truncate cp, WriteFile cp (save_token L config pw w)] \<and>
   (files (snd (secure_save L config cp pw w)) cp \<noteq> files w cp
      \<longrightarrow> files (snd (secure_save L config cp pw w)) (cp @ ''.salt'') = Some (save_salt w))"
  using save_config_encrypted(1,2) [where password=password and pw=pw and w=w and L=L
      and config=config and cp=cp]
    save_config_plaintext [where password=password and w=w and L=L and config=config and cp=cp]
    secure_save_effects(1,2) [where w=w and L=L and data=config and fp=cp and pw=pw]
  by blast

theorem save_writes_salt_before_token_witness:
  "truthy (Some ''pw'') = Some ''pw'' \<and>
   fst (save_config stub_lib [] (Some ''cfg'') (Some ''pw'') w_full_disk)
     = Inl (ConfigError ''Failed to save configuration: [Errno 28] No space left on device'') \<and>
   new_events w_full_disk (snd (save_config stub_lib [] (Some ''cfg'') (Some ''pw'') w_full_disk))
     = [Truncate ''cfg.salt'', WriteFile ''cfg.salt'' (save_salt w_full_disk), Truncate ''cfg.enc''] \<and>
   files (snd (save_config stub_lib [] (Some ''cfg'') (Some ''pw'') w_full_disk)) ''cfg.enc'' = Some [] \<and>
   files w_full_disk ''cfg.enc'' = Some [8, 8, 8] \<and>
   files (snd (save_config stub_lib [] (Some ''cfg'') (Some ''pw'') w_full_disk)) ''cfg.salt''
     = Some (save_salt w_full_disk) \<and>
   truthy None = None \<and>
   new_events w_legacy (snd (save_config stub_lib [] (Some ''cfg'') None w_legacy))
     = [Truncate ''cfg'', WriteFile ''cfg'' (str_encode ''{}'')]"
  using save_writes_salt_before_token [of "Some ''pw''" "''pw''" w_full_disk stub_lib "[]" "''cfg''"]
    save_writes_salt_before_token [of None "''pw''" w_legacy stub_lib "[]" "''cfg''"]
  by code_simp

text \<open>
  Claim C6. A \<^verbatim>\<open>save_config\<close> with a password that returns normally has written the salt
  file, then the token file, and then removed the file at the path if there was one: no
  file is left at the path. A \<^verbatim>\<open>secure_save\<close> that returns normally leaves the token at
  the path itself.
\<close>

theorem save_config_removes_plaintext:
  "(truthy password = Some pw \<and> fst (save_config L config (Some cp) password w) = Inr () \<longrightarrow>
      files (snd (save_config L config (Some cp) password w)) cp = None \<and>
      files (snd (save_config L config (Some cp) password w)) (cp @ ''.salt'') = Some (save_salt w) \<and>
      files (snd (save_config L config (Some cp) password w)) (cp @ ''.enc'')
        = Some (save_token L config pw w) \<and>
      new_events w (snd (save_config L config (Some cp) password w)) =
        [Truncate (cp @ ''.salt''), WriteFile (cp @ ''.salt'') (save_salt w),
         Truncate (cp @ ''.enc''), WriteFile (cp @ ''.enc'') (save_token L config pw w)]
        @ (if path_exists cp w then [RemoveFile cp] else [])) \<and>
   (fst (secure_save L config cp pw w) = Inr () \<longrightarrow>
      files (snd (secure_save L config cp pw w)) cp = Some (save_token L config pw w) \<and>
      files (snd (secure_save L config cp pw w)) (cp @ ''.salt'') = Some (save_salt w))"
  using save_config_encrypted(3) [where password=password and pw=pw and w=w and L=L
      and config=config and cp=cp]
    secure_save_effects(3) [where w=w and L=L and data=config and fp=cp and pw=pw]
  by blast

theorem save_config_removes_plaintext_witness:
  "truthy (Some ''pw'') = Some ''pw'' \<and>
   files w_legacy ''cfg'' = Some (str_encode ''{}'') \<and>
   fst (save_config stub_lib [] (Some ''cfg'') (Some ''pw'') w_legacy) = Inr () \<and>
   files (snd (save_config stub_lib [] (Some ''cfg'') (Some ''pw'') w_legacy)) ''cfg'' = None \<and>
   new_events w_legacy (snd (save_config stub_lib [] (Some ''cfg'') (Some ''pw'') w_legacy))
     = [Truncate ''cfg.salt'', WriteFile ''cfg.salt'' (save_salt w_legacy),
        Truncate ''cfg.enc'', WriteFile ''cfg.enc'' (save_token stub_lib [] ''pw'' w_legacy),
        RemoveFile ''cfg''] \<and>
   fst (secure_save stub_lib [] ''cfg'' ''pw'' w_legacy) = Inr () \<and>
   files (snd (secure_save stub_lib [] ''cfg'' ''pw'' w_legacy)) ''cfg''
     = Some (save_token stub_lib [] ''pw'' w_legacy)"
  using save_config_removes_plaintext [of "Some ''pw''" "''pw''" stub_lib "[]" "''cfg''" w_legacy]
  by code_simp

section \<open>Proofs: keys and the cipher\<close>

lemma length_urlsafe_b64encode:
  "length (urlsafe_b64encode bs) = 4 * ((length bs + 2) div 3)"
proof (induction bs rule: urlsafe_b64encode.induct)
  case (4 a b c rest)
  have "(length rest + 5) div 3 = Suc ((length rest + 2) div 3)" by arith
  with 4 show ?case by (simp add: add.commute)
qed simp_all

lemma length_os_urandom: "length (fst (os_urandom n w)) = n"
  by (simp add: os_urandom_def)

text \<open>
  Claim C3, as the code has it. \<^verbatim>\<open>derive_key\<close> (and \<^verbatim>\<open>generate_key\<close>, the same body)
  does not look at the password: for every password it returns the url-safe base64 text
  of what the key derivation function returns for the encoded password and the salt,
  with the salt, which is the one passed in, whatever its length, or 16 fresh random
  bytes when none is passed. The key has 44 bytes when the key derivation function
  returns the 32 bytes it is asked for. For the empty password the key is the text of
  what the function returns for the empty byte string, and \<^verbatim>\<open>secure_save\<close> goes through
  with it: if Fernet accepts that key and the two files can be written, it returns
  normally and the token under that key is on the disk.
\<close>

theorem derive_key_result:
  assumes "\<forall>salt pw. length (pbkdf2_hmac_sha256 L 32 100000 salt pw) = 32"
  shows "derive_key L password salt w =
           (case salt of
              None \<Rightarrow>
                ((urlsafe_b64encode
                    (pbkdf2_hmac_sha256 L 32 100000 (fst (os_urandom 16 w)) (str_encode password)),
                  fst (os_urandom 16 w)),
                 snd (os_urandom 16 w))
            | Some s \<Rightarrow>
                ((urlsafe_b64encode (pbkdf2_hmac_sha256 L 32 100000 s (str_encode password)), s),
                 w)) \<and>
         length (fst (fst (derive_key L password salt w))) = 44 \<and>
         snd (fst (derive_key L password salt w))
           = (case salt of None \<Rightarrow> fst (os_urandom 16 w) | Some s \<Rightarrow> s) \<and>
         (salt = None \<longrightarrow> length (snd (fst (derive_key L password salt w))) = 16) \<and>
         generate_key L password salt w = derive_key L password salt w \<and>
         fst (derive_key L [] (Some s') w)
           = (urlsafe_b64encode (pbkdf2_hmac_sha256 L 32 100000 s' []), s') \<and>
         (fernet_key_ok L (fst (fst (derive_key L [] None w))) \<and>
          filepath @ ''.salt'' \<notin> unwritable w \<and> filepath @ ''.salt'' \<notin> no_space w \<and>
          filepath \<notin> unwritable w \<and> filepath \<notin> no_space w \<longrightarrow>
            fst (secure_save L data filepath [] w) = Inr () \<and>
            files (snd (secure_save L data filepath [] w)) filepath
              = Some (save_token L data [] w))"
proof -
  have 1: "derive_key L password salt w =
           (case salt of
              None \<Rightarrow>
                ((urlsafe_b64encode
                    (pbkdf2_hmac_sha256 L 32 100000 (fst (os_urandom 16 w)) (str_encode password)),
                  fst (os_urandom 16 w)),
                 snd (os_urandom 16 w))
            | Some s \<Rightarrow>
                ((urlsafe_b64encode (pbkdf2_hmac_sha256 L 32 100000 s (str_encode password)), s),
                 w))"
    by (simp add: derive_key_def split: option.splits prod.splits)
  have 2: "length (fst (fst (derive_key L password salt w))) = 44"
    using assms
    by (simp add: derive_key_def length_urlsafe_b64encode split: option.splits prod.splits)
  have 3: "snd (fst (derive_key L password salt w))
           = (case salt of None \<Rightarrow> fst (os_urandom 16 w) | Some s \<Rightarrow> s)"
    by (simp add: derive_key_def split: option.splits prod.splits)
  have 4: "salt = None \<longrightarrow> length (snd (fst (derive_key L password salt w))) = 16"
    by (simp add: derive_key_def os_urandom_def)
  have 5: "generate_key L password salt w = derive_key L password salt w"
    by (simp add: derive_key_def generate_key_def)
  have 6: "fst (derive_key L [] (Some s') w)
           = (urlsafe_b64encode (pbkdf2_hmac_sha256 L 32 100000 s' []), s')"
    by (simp add: derive_key_def str_encode_def)
  have 7: "fst (secure_save L data filepath [] w) = Inr () \<and>
            files (snd (secure_save L data filepath [] w)) filepath
              = Some (save_token L data [] w)"
    if ok: "fernet_key_ok L (fst (fst (derive_key L [] None w))) \<and>
          filepath @ ''.salt'' \<notin> unwritable w \<and> filepath @ ''.salt'' \<notin> no_space w \<and>
          filepath \<notin> unwritable w \<and> filepath \<notin> no_space w"
  proof -
    from ok have "fst (secure_save L data filepath [] w) = Inr ()"
      by (simp add: secure_save_def except_as_def bind_io_def write_file_def encrypt_data_def
            derive_key_def os_urandom_def log_ev_def Let_def split: prod.splits)
    then show ?thesis
      using secure_save_effects(3) [where L=L and data=data and fp=filepath and pw="[]" and w=w]
      by simp
  qed
  from 1 2 3 4 5 6 7 show ?thesis by blast
qed

text \<open>
  The claim as stated fails: with the empty password and a salt of three bytes the call
  returns; the key is the text of what the key derivation function returns, 44 bytes, and
  the salt is the three bytes; and \<^verbatim>\<open>secure_save\<close> with the empty password returns
  normally.
\<close>

theorem derive_key_result_counterexample:
  "fst (derive_key stub_lib [] (Some [1, 2, 3]) w_empty)
     = (urlsafe_b64encode ([1, 2, 3] @ replicate 29 0), [1, 2, 3]) \<and>
   length (fst (fst (derive_key stub_lib [] (Some [1, 2, 3]) w_empty))) = 44 \<and>
   length (snd (fst (derive_key stub_lib [] (Some [1, 2, 3]) w_empty))) = 3 \<and>
   fst (secure_save stub_lib [] ''vault'' [] w_empty) = Inr ()"
  by code_simp

theorem derive_key_result_witness:
  "fst (derive_key stub_lib ''pw'' None w_empty)
     = (urlsafe_b64encode ([112, 119, 0, 1, 2, 3, 4, 5, 6, 7, 8, 9, 10, 11, 12, 13, 14, 15]
                             @ replicate 14 0),
        [0, 1, 2, 3, 4, 5, 6, 7, 8, 9, 10, 11, 12, 13, 14, 15]) \<and>
   length (fst (fst (derive_key stub_lib ''pw'' None w_empty))) = 44 \<and>
   length (snd (fst (derive_key stub_lib ''pw'' None w_empty))) = 16 \<and>
   length (fst (fst (derive_key stub_lib [] None w_empty))) = 44 \<and>
   fst (secure_save stub_lib [] ''vault'' [] w_empty) = Inr () \<and>
   files (snd (secure_save stub_lib [] ''vault'' [] w_empty)) ''vault''
     = Some (save_token stub_lib [] [] w_empty)"
proof -
  have h: "\<forall>salt pw. length (pbkdf2_hmac_sha256 stub_lib 32 100000 salt pw) = 32"
    by (auto simp: stub_lib_def)
  have e: "fst (os_urandom 16 w_empty) = [0, 1, 2, 3, 4, 5, 6, 7, 8, 9, 10, 11, 12, 13, 14, 15]"
    "pbkdf2_hmac_sha256 stub_lib 32 100000 [0, 1, 2, 3, 4, 5, 6, 7, 8, 9, 10, 11, 12, 13, 14, 15]
        (str_encode ''pw'')
       = [112, 119, 0, 1, 2, 3, 4, 5, 6, 7, 8, 9, 10, 11, 12, 13, 14, 15] @ replicate 14 0"
    by code_simp+
  have k: "fernet_key_ok stub_lib (fst (fst (derive_key stub_lib [] None w_empty))) \<and>
          ''vault'' @ ''.salt'' \<notin> unwritable w_empty \<and> ''vault'' @ ''.salt'' \<notin> no_space w_empty \<and>
          ''vault'' \<notin> unwritable w_empty \<and> ''vault'' \<notin> no_space w_empty"
    by code_simp
  note t = derive_key_result [OF h, of "''pw''" None w_empty "[]" "''vault''" "[]",
      unfolded option.case]
  from t have "derive_key stub_lib ''pw'' None w_empty =
          ((urlsafe_b64encode
              (pbkdf2_hmac_sha256 stub_lib 32 100000 (fst (os_urandom 16 w_empty)) (str_encode ''pw'')),
            fst (os_urandom 16 w_empty)),
           snd (os_urandom 16 w_empty))"
    by blast
  moreover from t have "length (fst (fst (derive_key stub_lib ''pw'' None w_empty))) = 44"
    "length (snd (fst (derive_key stub_lib ''pw'' None w_empty))) = 16"
    by blast+
  ultimately have "fst (derive_key stub_lib ''pw'' None w_empty)
     = (urlsafe_b64encode ([112, 119, 0, 1, 2, 3, 4, 5, 6, 7, 8, 9, 10, 11, 12, 13, 14, 15]
                             @ replicate 14 0),
        [0, 1, 2, 3, 4, 5, 6, 7, 8, 9, 10, 11, 12, 13, 14, 15])"
    "length (fst (fst (derive_key stub_lib ''pw'' None w_empty))) = 44"
    "length (snd (fst (derive_key stub_lib ''pw'' None w_empty))) = 16"
    by (simp_all only: e fst_conv)
  moreover from derive_key_result [OF h, of "[]" None w_empty]
  have "length (fst (fst (derive_key stub_lib [] None w_empty))) = 44" by blast
  moreover from derive_key_result [OF h, of "[]" None w_empty "[]" "''vault''" "[]"] k
  have "fst (secure_save stub_lib [] ''vault'' [] w_empty) = Inr () \<and>
        files (snd (secure_save stub_lib [] ''vault'' [] w_empty)) ''vault''
          = Some (save_token stub_lib [] [] w_empty)"
    by blast
  ultimately show ?thesis by (simp only: simp_thms)
qed

subsection \<open>The reader reads back what \<^verbatim>\<open>json.dumps\<close> wrote\<close>

lemma hex_val_hex_digit: "hex_val (hex_digit d) = Some (d mod 16)"
proof -
  have "\<forall>k \<in> set [0..<16]. hex_val (hex_digit k) = Some k"
    by code_simp
  moreover have "d mod 16 \<in> set [0..<16]" by simp
  ultimately have "hex_val (hex_digit (d mod 16)) = Some (d mod 16)" by blast
  then show ?thesis by (simp add: hex_digit_def)
qed

lemma hex_val_zero: "hex_val CHR ''0'' = Some 0"
  by code_simp

lemma char_of_hex: "n < 256 \<Longrightarrow> char_of (16 * (n div 16 mod 16) + n mod 16 :: nat) = (char_of n :: char)"
proof -
  assume "n < 256"
  then have "n div 16 mod 16 = n div 16" by simp
  then show ?thesis by simp
qed

lemma of_char_lt: "(of_char (c::char) :: nat) < 256"
  by simp

lemma scan_string_escape_char:
  "scan_string (json_escape_char c @ t) = map_option (\<lambda>(s, r). (c # s, r)) (scan_string t)"
proof -
  let ?n = "of_char c :: nat"
  have c: "c = char_of ?n" by simp
  consider "?n = 0x22" | "?n = 0x5C" | "?n = 10" | "?n = 13" | "?n = 9" | "?n = 8" | "?n = 12"
    | "?n \<notin> {0x22, 0x5C, 10, 13, 9, 8, 12}" "32 \<le> ?n" "?n \<le> 126"
    | "?n \<notin> {0x22, 0x5C, 10, 13, 9, 8, 12}" "\<not> (32 \<le> ?n \<and> ?n \<le> 126)"
    by blast
  then show ?thesis
  proof cases
    case 1
    then have "of_char c = (of_char (CHR 0x22) :: nat)" by simp
    then have "c = CHR 0x22" by (simp only: of_char_eq_iff)
    then show ?thesis by (simp add: json_escape_char_def unescape_def)
  next
    case 2
    then have "of_char c = (of_char (CHR 0x5C) :: nat)" by simp
    then have "c = CHR 0x5C" by (simp only: of_char_eq_iff)
    then show ?thesis by (simp add: json_escape_char_def unescape_def)
  next
    case 3
    then have "of_char c = (of_char (CHR 0x0A) :: nat)" by simp
    then have "c = CHR 0x0A" by (simp only: of_char_eq_iff)
    then show ?thesis by (simp add: json_escape_char_def unescape_def)
  next
    case 4
    then have "of_char c = (of_char (CHR 0x0D) :: nat)" by simp
    then have "c = CHR 0x0D" by (simp only: of_char_eq_iff)
    then show ?thesis by (simp add: json_escape_char_def unescape_def)
  next
    case 5
    then have "of_char c = (of_char (CHR 0x09) :: nat)" by simp
    then have "c = CHR 0x09" by (simp only: of_char_eq_iff)
    then show ?thesis by (simp add: json_escape_char_def unescape_def)
  next
    case 6
    then have "of_char c = (of_char (CHR 0x08) :: nat)" by simp
    then have "c = CHR 0x08" by (simp only: of_char_eq_iff)
    then show ?thesis by (simp add: json_escape_char_def unescape_def)
  next
    case 7
    then have "of_char c = (of_char (CHR 0x0C) :: nat)" by simp
    then have "c = CHR 0x0C" by (simp only: of_char_eq_iff)
    then show ?thesis by (simp add: json_escape_char_def unescape_def)
  next
    case 8
    then have "c \<noteq> CHR 0x22" "c \<noteq> CHR 0x5C" by auto
    moreover from 8 have "json_escape_char c = [c]"
      by (auto simp: json_escape_char_def Let_def)
    ultimately show ?thesis using 8 by simp
  next
    case 9
    have "char_of (16 * (?n div 16 mod 16) + ?n mod 16) = (char_of ?n :: char)"
      by (rule char_of_hex) simp
    moreover from 9 have "json_escape_char c =
        [CHR 0x5C, CHR ''u'', CHR ''0'', CHR ''0'', hex_digit (?n div 16), hex_digit ?n]"
      by (auto simp: json_escape_char_def Let_def)
    ultimately show ?thesis
      by (simp add: hex_val_hex_digit hex_val_zero)
  qed
qed

lemma scan_string_escape:
  "scan_string (concat (map json_escape_char s) @ CHR 0x22 # rest) = Some (s, rest)"
  by (induction s) (simp_all add: scan_string_escape_char)

lemma scan_string_encoded:
  "encode_basestring_ascii s @ rest = CHR 0x22 # concat (map json_escape_char s) @ CHR 0x22 # rest"
  by (simp add: encode_basestring_ascii_def)

lemma digit_val_digit_char: "digit_val (digit_char d) = d mod 10"
proof -
  have "\<forall>k \<in> set [0..<10]. digit_val (digit_char k) = k"
    by code_simp
  moreover have "d mod 10 \<in> set [0..<10]" by simp
  ultimately have "digit_val (digit_char (d mod 10)) = d mod 10" by blast
  then show ?thesis by (simp add: digit_char_def)
qed

lemma is_digit_digit_char: "is_digit (digit_char d)"
proof -
  have "\<forall>k \<in> set [0..<10]. is_digit (digit_char k)"
    by code_simp
  moreover have "d mod 10 \<in> set [0..<10]" by simp
  ultimately have "is_digit (digit_char (d mod 10))" by blast
  then show ?thesis by (simp add: digit_char_def)
qed

lemma digit_char_zero: "digit_char d = CHR ''0'' \<longleftrightarrow> d mod 10 = 0"
proof
  assume "digit_char d = CHR ''0''"
  then have "digit_val (digit_char d) = digit_val CHR ''0''" by simp
  then have "d mod 10 = digit_val CHR ''0''" by (simp only: digit_val_digit_char)
  moreover have "digit_val CHR ''0'' = 0" by (simp add: digit_val_def)
  ultimately show "d mod 10 = 0" by simp
next
  assume "d mod 10 = 0"
  then show "digit_char d = CHR ''0''" by (simp add: digit_char_def)
qed

lemma nat_repr_ne: "nat_repr n \<noteq> []"
  by (subst nat_repr.simps) simp

lemma nat_repr_digits: "x \<in> set (nat_repr n) \<Longrightarrow> is_digit x"
proof (induction n arbitrary: x rule: nat_repr.induct)
  case (1 n)
  then show ?case
    by (subst (asm) (2) nat_repr.simps) (auto simp: is_digit_digit_char split: if_splits)
qed

lemma digits_val_snoc: "digits_val (ds @ [c]) = 10 * digits_val ds + digit_val c"
  by (simp add: digits_val_def)

lemma digits_val_nat_repr: "digits_val (nat_repr n) = n"
proof (induction n rule: nat_repr.induct)
  case (1 n)
  show ?case
  proof (cases "n < 10")
    case True
    then show ?thesis
      by (subst nat_repr.simps) (simp add: digits_val_def digit_val_digit_char)
  next
    case False
    with 1 have "digits_val (nat_repr (n div 10)) = n div 10" by simp
    with False show ?thesis
      by (subst nat_repr.simps) (simp add: digits_val_snoc digit_val_digit_char)
  qed
qed

lemma nat_repr_hd: "0 < n \<Longrightarrow> hd (nat_repr n) \<noteq> CHR ''0''"
proof (induction n rule: nat_repr.induct)
  case (1 n)
  show ?case
  proof (cases "n < 10")
    case True
    with 1(2) show ?thesis
      by (subst nat_repr.simps) (simp add: digit_char_zero)
  next
    case False
    with 1 have "hd (nat_repr (n div 10)) \<noteq> CHR ''0''" by simp
    with False show ?thesis
      by (subst nat_repr.simps) (simp add: nat_repr_ne)
  qed
qed

lemma nat_repr_zero: "nat_repr 0 = ''0''"
  by (subst nat_repr.simps) (simp add: digit_char_def)

lemma value_end_not_digit:
  "value_end r \<Longrightarrow> takeWhile is_digit r = [] \<and> dropWhile is_digit r = r"
  by (cases r) (auto simp: value_end_def is_digit_def)

lemma takeWhile_nat_repr:
  "value_end r \<Longrightarrow> takeWhile is_digit (nat_repr n @ r) = nat_repr n"
  by (simp add: takeWhile_append2 nat_repr_digits value_end_not_digit)

lemma dropWhile_nat_repr:
  "value_end r \<Longrightarrow> dropWhile is_digit (nat_repr n @ r) = r"
  by (simp add: dropWhile_append2 nat_repr_digits value_end_not_digit)

lemma value_end_cases:
  assumes "value_end r"
  obtains "r = []" | r' where "r = CHR '','' # r'" | r' where "r = CHR '']'' # r'"
    | r' where "r = CHR ''}'' # r'"
  using assms by (cases r) (auto simp: value_end_def)

lemma scan_frac_end: "value_end r \<Longrightarrow> scan_frac r = ([], r)"
  by (cases r rule: value_end_cases) (simp_all add: scan_frac_def)

lemma scan_exp_end: "value_end r \<Longrightarrow> scan_exp r = ([], r)"
  by (cases r rule: value_end_cases) (simp_all add: scan_exp_def)

lemma scan_digits_nat:
  assumes "value_end r"
  shows "scan_digits (nat_repr n @ r) = (nat_repr n, r)"
proof (cases "n = 0")
  case True
  then show ?thesis by (simp add: nat_repr_zero scan_digits_def)
next
  case False
  obtain c cs where cs: "nat_repr n = c # cs"
    using nat_repr_ne [of n] by (cases "nat_repr n") auto
  from False have "hd (nat_repr n) \<noteq> CHR ''0''" by (simp add: nat_repr_hd)
  with cs have c0: "c \<noteq> CHR ''0''" by simp
  have cd: "is_digit c" using nat_repr_digits [of c n] cs by simp
  have "takeWhile is_digit (c # cs @ r) = c # cs" "dropWhile is_digit (c # cs @ r) = r"
    using takeWhile_nat_repr [OF assms, of n] dropWhile_nat_repr [OF assms, of n] cs by simp_all
  with c0 cd have "scan_digits (c # cs @ r) = (c # cs, r)"
    by (simp add: scan_digits_def del: takeWhile.simps dropWhile.simps)
  with cs show ?thesis by simp
qed

lemma nat_repr_first: "\<exists>c cs. nat_repr n = c # cs \<and> is_digit c"
proof -
  obtain c cs where cs: "nat_repr n = c # cs"
    using nat_repr_ne [of n] by (cases "nat_repr n") auto
  then have "is_digit c" using nat_repr_digits [of c n] by simp
  with cs show ?thesis by simp
qed

lemma scan_int_repr:
  assumes "value_end r"
  shows "scan_int (int_repr i @ r) = (int_repr i, r)"
proof (cases "i < 0")
  case True
  then show ?thesis
    by (simp add: int_repr_def scan_int_def scan_digits_nat [OF assms] nat_repr_ne)
next
  case False
  obtain c cs where cs: "nat_repr (nat i) = c # cs" and cd: "is_digit c"
    using nat_repr_first [of "nat i"] by blast
  from cd have "c \<noteq> CHR ''-''" by (auto simp: is_digit_def)
  then have "scan_int (c # cs @ r) = scan_digits (c # cs @ r)"
    by (simp add: scan_int_def)
  with scan_digits_nat [OF assms, of "nat i"] cs False show ?thesis
    by (simp add: int_repr_def)
qed

lemma int_of_text_repr: "int_of_text (int_repr i) = i"
proof (cases "i < 0")
  case True
  then show ?thesis by (simp add: int_repr_def int_of_text_def digits_val_nat_repr)
next
  case False
  obtain c cs where cs: "nat_repr (nat i) = c # cs" and cd: "is_digit c"
    using nat_repr_first [of "nat i"] by blast
  from cd have "c \<noteq> CHR ''-''" by (auto simp: is_digit_def)
  moreover have "digits_val (c # cs) = nat i" using digits_val_nat_repr [of "nat i"] cs by simp
  ultimately show ?thesis using False cs by (simp add: int_repr_def int_of_text_def)
qed

lemma int_repr_first:
  "\<exists>c cs. int_repr i = c # cs \<and> (c = CHR ''-'' \<or> is_digit c)"
proof (cases "i < 0")
  case True then show ?thesis by (simp add: int_repr_def)
next
  case False
  with nat_repr_first [of "nat i"] show ?thesis by (auto simp: int_repr_def)
qed

lemma scan_number_int:
  assumes "value_end r"
  shows "scan_number F (int_repr i @ r) = Some (PInt i, r)"
proof -
  have "int_repr i \<noteq> []" using int_repr_first [of i] by auto
  then show ?thesis
    by (simp add: scan_number_def scan_int_repr [OF assms] scan_frac_end [OF assms]
        scan_exp_end [OF assms] int_of_text_repr)
qed

lemma parse_value_int:
  assumes "value_end r"
  shows "parse_value F (Suc n) (int_repr i @ r) = Some (PInt i, r)"
proof -
  obtain c cs where cs: "int_repr i = c # cs" and c: "c = CHR ''-'' \<or> is_digit c"
    using int_repr_first [of i] by blast
  from c have "c \<noteq> CHR 0x22" "c \<noteq> CHR ''{''" "c \<noteq> CHR ''[''" "c \<noteq> CHR ''n''" "c \<noteq> CHR ''t''"
    "c \<noteq> CHR ''f''" by (auto simp: is_digit_def)
  then have "parse_value F (Suc n) (c # cs @ r) = scan_number F (c # cs @ r)"
    by simp
  with scan_number_int [OF assms, of F i] cs show ?thesis by simp
qed

lemma parse_value_start:
  assumes "parse_value F (Suc n) (c # cs) = Some res"
  shows "value_start c"
proof (rule ccontr)
  assume "\<not> value_start c"
  then have "parse_value F (Suc n) (c # cs) = None"
    by (auto simp: value_start_def scan_number_def scan_int_def scan_digits_def is_digit_def)
  with assms show False by simp
qed

lemma parse_value_fuel1:
  assumes "parse_value F (Suc 0) t = Some (PFloat x, r)"
  shows "parse_value F (Suc n) t = Some (PFloat x, r)"
proof (cases t)
  case Nil
  with assms show ?thesis by simp
next
  case (Cons c cs)
  have a: "c \<noteq> CHR 0x22" using assms Cons by (auto split: if_splits)
  have b: "c \<noteq> CHR ''{''" using assms Cons a by (auto split: if_splits list.splits)
  have d: "c \<noteq> CHR ''[''" using assms Cons a b by (auto split: if_splits list.splits)
  from a b d assms show ?thesis unfolding Cons by simp
qed

lemma skip_ws_start: "value_start c \<Longrightarrow> skip_ws (c # cs) = c # cs"
  by (auto simp: skip_ws_def is_ws_def value_start_def)

lemma skip_ws_space: "skip_ws (CHR '' '' # t) = skip_ws t"
  by (simp add: skip_ws_def is_ws_def)

lemma skip_ws_space_start: "value_start c \<Longrightarrow> skip_ws (CHR '' '' # c # cs) = c # cs"
  by (simp add: skip_ws_space skip_ws_start)

lemma value_start_simps:
  "value_start c \<Longrightarrow> c \<noteq> CHR '']'' \<and> c \<noteq> CHR ''}'' \<and> c \<noteq> CHR '','' \<and> c \<noteq> CHR '' ''"
  by (auto simp: value_start_def)

lemma length_join_hd: "length x \<le> length (join sep (x # xs))"
  by (cases xs) simp_all

lemma parse_elems_join:
  assumes "\<forall>x \<in> set xs. reads_back F (e x) x" "xs \<noteq> []"
    "length (join '', '' (map e xs)) < n"
  shows "parse_elems F n (join '', '' (map e xs) @ CHR '']'' # r) = Some (xs, r)"
  using assms
proof (induction xs arbitrary: n)
  case Nil
  then show ?case by simp
next
  case (Cons x xs)
  from Cons.prems(3) obtain m where n: "n = Suc m" by (cases n) auto
  from Cons.prems(1) have rb: "reads_back F (e x) x" by simp
  show ?case
  proof (cases xs)
    case Nil
    from Cons.prems(3) n Nil have "length (e x) \<le> m" by simp
    with rb have "parse_value F m (e x @ CHR '']'' # r) = Some (x, CHR '']'' # r)"
      by (simp add: reads_back_def value_end_def)
    then show ?thesis
      by (simp add: n Nil skip_ws_def is_ws_def)
  next
    case (Cons y ys)
    let ?rest = "join '', '' (map e (y # ys))"
    from rb have "length (e x) \<le> m \<longrightarrow>
        parse_value F m (e x @ CHR '','' # CHR '' '' # ?rest @ CHR '']'' # r)
          = Some (x, CHR '','' # CHR '' '' # ?rest @ CHR '']'' # r)"
      by (simp add: reads_back_def value_end_def)
    moreover from Cons.prems(3) n Cons have len: "length (e x) \<le> m" "length ?rest < m" by simp_all
    ultimately have pv: "parse_value F m (e x @ CHR '','' # CHR '' '' # ?rest @ CHR '']'' # r)
          = Some (x, CHR '','' # CHR '' '' # ?rest @ CHR '']'' # r)" by simp
    from Cons.prems(1) Cons have "reads_back F (e y) y" by simp
    then obtain c cs where c: "e y = c # cs" "value_start c" by (auto simp: reads_back_def)
    then obtain cs' where st: "?rest @ CHR '']'' # r = c # cs'" by (cases ys) auto
    from Cons.prems(1) Cons len Cons.IH [of m]
    have "parse_elems F m (?rest @ CHR '']'' # r) = Some (xs, r)" by simp
    moreover have "\<not> is_ws CHR '',''" "is_ws CHR '' ''" "\<not> is_ws c"
      using c(2) by (auto simp: is_ws_def value_start_def)
    ultimately show ?thesis
      using st pv Cons by (simp add: n skip_ws_def)
  qed
qed

lemma parse_members_join:
  assumes "\<forall>kv \<in> set d. reads_back F (e (snd kv)) (snd kv)" "d \<noteq> []"
    "length (join '', '' (map (\<lambda>kv. encode_basestring_ascii (fst kv) @ '': '' @ e (snd kv)) d)) < n"
  shows "parse_members F n
           (join '', '' (map (\<lambda>kv. encode_basestring_ascii (fst kv) @ '': '' @ e (snd kv)) d)
            @ CHR ''}'' # r) = Some (d, r)"
  using assms
proof (induction d arbitrary: n)
  case Nil
  then show ?case by simp
next
  case (Cons kv d)
  let ?m = "\<lambda>kv. encode_basestring_ascii (fst kv) @ '': '' @ e (snd kv)"
  obtain k v where kv: "kv = (k, v)" by (cases kv)
  from Cons.prems(3) obtain m where n: "n = Suc m" by (cases n) auto
  from Cons.prems(1) kv have rb: "reads_back F (e v) v" by simp
  then obtain c cs where c: "e v = c # cs" "value_start c" by (auto simp: reads_back_def)
  have ws: "\<not> is_ws CHR '',''" "is_ws CHR '' ''" "\<not> is_ws CHR '':''" "\<not> is_ws CHR ''}''"
    "\<not> is_ws CHR 0x22" "\<not> is_ws c"
    using c(2) by (auto simp: is_ws_def value_start_def)
  have key: "\<And>t. scan_string (concat (map json_escape_char k) @ CHR 0x22 # t) = Some (k, t)"
    by (rule scan_string_escape)
  show ?case
  proof (cases d)
    case Nil
    from Cons.prems(3) n Nil kv have "length (e v) \<le> m" by simp
    with rb have "parse_value F m (e v @ CHR ''}'' # r) = Some (v, CHR ''}'' # r)"
      by (simp add: reads_back_def value_end_def)
    with c ws show ?thesis
      by (simp add: n Nil kv skip_ws_def encode_basestring_ascii_def key)
  next
    case (Cons kv' d')
    let ?rest = "join '', '' (map ?m (kv' # d'))"
    from Cons.prems(3) n Cons kv have len: "length (e v) \<le> m" "length ?rest < m" by simp_all
    with rb have pv: "parse_value F m (e v @ CHR '','' # CHR '' '' # ?rest @ CHR ''}'' # r)
          = Some (v, CHR '','' # CHR '' '' # ?rest @ CHR ''}'' # r)"
      by (simp add: reads_back_def value_end_def)
    obtain cs' where st: "?rest @ CHR ''}'' # r = CHR 0x22 # cs'"
      by (cases d') (auto simp: encode_basestring_ascii_def)
    from Cons.prems(1) Cons len Cons.IH [of m]
    have "parse_members F m (?rest @ CHR ''}'' # r) = Some (d, r)" by simp
    with c ws st pv show ?thesis
      using Cons
      by (simp add: n kv skip_ws_def encode_basestring_ascii_def key)
  qed
qed

lemma reads_back_null: "reads_back F ''null'' PNone"
proof -
  have "parse_value F n (''null'' @ r) = Some (PNone, r)" if "length ''null'' \<le> n" for n r
  proof -
    from that obtain m where "n = Suc m" by (cases n) auto
    then show ?thesis by simp
  qed
  then show ?thesis unfolding reads_back_def by (simp add: value_start_def)
qed

lemma reads_back_true: "reads_back F ''true'' (PBool True)"
proof -
  have "parse_value F n (''true'' @ r) = Some (PBool True, r)" if "length ''true'' \<le> n" for n r
  proof -
    from that obtain m where "n = Suc m" by (cases n) auto
    then show ?thesis by simp
  qed
  then show ?thesis unfolding reads_back_def by (simp add: value_start_def)
qed

lemma reads_back_false: "reads_back F ''false'' (PBool False)"
proof -
  have "parse_value F n (''false'' @ r) = Some (PBool False, r)" if "length ''false'' \<le> n" for n r
  proof -
    from that obtain m where "n = Suc m" by (cases n) auto
    then show ?thesis by simp
  qed
  then show ?thesis unfolding reads_back_def by (simp add: value_start_def)
qed

lemma reads_back_int: "reads_back F (int_repr i) (PInt i)"
proof -
  obtain c cs where cs: "int_repr i = c # cs" and c: "c = CHR ''-'' \<or> is_digit c"
    using int_repr_first [of i] by blast
  from c have "value_start c" by (auto simp: value_start_def is_digit_def)
  moreover have "parse_value F n (int_repr i @ r) = Some (PInt i, r)"
    if "value_end r" "length (int_repr i) \<le> n" for n r
  proof -
    from that(2) cs obtain m where "n = Suc m" by (cases n) auto
    with parse_value_int [OF that(1)] show ?thesis by simp
  qed
  ultimately show ?thesis using cs by (simp add: reads_back_def)
qed

lemma reads_back_float:
  assumes "float_ok L x"
  shows "reads_back (float_of_str L) (float_repr L x) (PFloat x)"
proof -
  have "value_end []" by (simp add: value_end_def)
  with assms have "parse_value (float_of_str L) (Suc 0) (float_repr L x @ []) = Some (PFloat x, [])"
    unfolding float_ok_def by blast
  then have p0: "parse_value (float_of_str L) (Suc 0) (float_repr L x) = Some (PFloat x, [])"
    by (simp only: append_Nil2)
  then obtain c cs where cs: "float_repr L x = c # cs" by (cases "float_repr L x") auto
  with p0 have "value_start c" using parse_value_start by metis
  moreover have "parse_value (float_of_str L) n (float_repr L x @ r) = Some (PFloat x, r)"
    if "value_end r" "length (float_repr L x) \<le> n" for n r
  proof -
    from that(2) cs obtain m where "n = Suc m" by (cases n) auto
    moreover from assms that(1)
    have "parse_value (float_of_str L) (Suc 0) (float_repr L x @ r) = Some (PFloat x, r)"
      unfolding float_ok_def by blast
    ultimately show ?thesis using parse_value_fuel1 by metis
  qed
  ultimately show ?thesis using cs by (simp add: reads_back_def)
qed

lemma reads_back_str: "reads_back F (encode_basestring_ascii s) (PStr s)"
proof -
  have "parse_value F n (encode_basestring_ascii s @ r) = Some (PStr s, r)"
    if "length (encode_basestring_ascii s) \<le> n" for n r
  proof -
    from that obtain m where "n = Suc m" by (cases n) (auto simp: encode_basestring_ascii_def)
    then show ?thesis by (simp add: encode_basestring_ascii_def scan_string_escape)
  qed
  then show ?thesis by (simp add: reads_back_def encode_basestring_ascii_def value_start_def)
qed

lemma reads_back_list:
  assumes "\<forall>x \<in> set xs. reads_back F (e x) x"
  shows "reads_back F (if xs = [] then ''[]'' else ''['' @ join '', '' (map e xs) @ '']'') (PList xs)"
proof (cases xs)
  case Nil
  have "parse_value F n (''[]'' @ r) = Some (PList [], r)" if "2 \<le> n" for n r
  proof -
    from that obtain m where "n = Suc m" by (cases n) auto
    then show ?thesis by (simp add: skip_ws_def is_ws_def)
  qed
  with Nil show ?thesis by (simp add: reads_back_def value_start_def)
next
  case (Cons y ys)
  with assms have "reads_back F (e y) y" by simp
  then obtain c cs where c: "e y = c # cs" "value_start c" by (auto simp: reads_back_def)
  have "parse_value F n ((''['' @ join '', '' (map e xs) @ '']'') @ r) = Some (PList xs, r)"
    if "length (''['' @ join '', '' (map e xs) @ '']'') \<le> n" for n r
  proof -
    from that obtain m where n: "n = Suc m" by (cases n) auto
    with that have "length (join '', '' (map e xs)) < m" by simp
    with assms Cons have pe: "parse_elems F m (join '', '' (map e xs) @ CHR '']'' # r) = Some (xs, r)"
      by (intro parse_elems_join) simp_all
    obtain cs' where st: "join '', '' (map e xs) @ CHR '']'' # r = c # cs'"
      using Cons c by (cases ys) auto
    have "\<not> is_ws c" "c \<noteq> CHR '']''" using c(2) by (auto simp: is_ws_def value_start_def)
    with pe st show ?thesis by (simp add: n skip_ws_def)
  qed
  with Cons show ?thesis by (simp add: reads_back_def value_start_def)
qed

lemma fold_dict_set_id:
  "distinct (map fst d) \<Longrightarrow> fold (\<lambda>kv d. dict_set d (fst kv) (snd kv)) d [] = d"
  using fold_dict_set_map [of "[]" d snd] by simp

lemma reads_back_dict:
  assumes "\<forall>kv \<in> set d. reads_back F (e (snd kv)) (snd kv)" "distinct (map fst d)"
  shows "reads_back F
           (if d = [] then ''{}''
            else ''{'' @ join '', '' (map (\<lambda>kv. encode_basestring_ascii (fst kv) @ '': '' @ e (snd kv)) d)
                 @ ''}'') (PDict d)"
proof (cases d)
  case Nil
  have "parse_value F n (''{}'' @ r) = Some (PDict [], r)" if "2 \<le> n" for n r
  proof -
    from that obtain m where "n = Suc m" by (cases n) auto
    then show ?thesis by (simp add: skip_ws_def is_ws_def)
  qed
  with Nil show ?thesis by (simp add: reads_back_def value_start_def)
next
  case (Cons kv d')
  let ?m = "\<lambda>kv. encode_basestring_ascii (fst kv) @ '': '' @ e (snd kv)"
  have "parse_value F n ((''{'' @ join '', '' (map ?m d) @ ''}'') @ r) = Some (PDict d, r)"
    if "length (''{'' @ join '', '' (map ?m d) @ ''}'') \<le> n" for n r
  proof -
    from that obtain m where n: "n = Suc m" by (cases n) auto
    with that have "length (join '', '' (map ?m d)) < m" by simp
    with assms Cons have pe: "parse_members F m (join '', '' (map ?m d) @ CHR ''}'' # r) = Some (d, r)"
      by (intro parse_members_join) simp_all
    obtain cs' where st: "join '', '' (map ?m d) @ CHR ''}'' # r = CHR 0x22 # cs'"
      using Cons by (cases d') (auto simp: encode_basestring_ascii_def)
    have "\<not> is_ws CHR 0x22" by (simp add: is_ws_def)
    with pe st show ?thesis by (simp add: n skip_ws_def fold_dict_set_id [OF assms(2)])
  qed
  with Cons show ?thesis by (simp add: reads_back_def value_start_def)
qed

lemma reads_back_json_encode:
  "wf_val v \<Longrightarrow> floats_ok L v \<Longrightarrow> reads_back (float_of_str L) (json_encode L False None lvl v) v"
proof (induction v arbitrary: lvl)
  case PNone
  show ?case by (simp add: json_encode.simps reads_back_null)
next
  case (PBool b)
  show ?case by (simp add: json_encode.simps reads_back_true reads_back_false)
next
  case (PInt i)
  show ?case by (simp add: json_encode.simps reads_back_int)
next
  case (PFloat x)
  then show ?case by (simp add: json_encode.simps reads_back_float)
next
  case (PStr s)
  show ?case by (simp add: json_encode.simps reads_back_str)
next
  case (PList xs)
  then have "\<forall>x \<in> set xs. reads_back (float_of_str L) (json_encode L False None (Suc lvl) x) x"
    by (simp add: list_all_iff)
  from reads_back_list [OF this] show ?case
    by (cases "xs = []") (simp_all add: json_encode.simps newline_indent_def item_separator_def)
next
  case (PDict d)
  have "\<forall>kv \<in> set d. reads_back (float_of_str L) (json_encode L False None (Suc lvl) (snd kv)) (snd kv)"
  proof
    fix kv assume kv: "kv \<in> set d"
    with PDict.prems have "wf_val (snd kv)" "floats_ok L (snd kv)" by (simp_all add: list_all_iff)
    moreover have "snd kv \<in> Basic_BNFs.snds kv" by (cases kv) simp
    ultimately show "reads_back (float_of_str L) (json_encode L False None (Suc lvl) (snd kv)) (snd kv)"
      using kv PDict.IH [of kv "snd kv" "Suc lvl"] by blast
  qed
  moreover from PDict.prems have "distinct (map fst d)" by simp
  ultimately have "reads_back (float_of_str L)
           (if d = [] then ''{}''
            else ''{'' @ join '', '' (map (\<lambda>kv. encode_basestring_ascii (fst kv) @ '': ''
                    @ json_encode L False None (Suc lvl) (snd kv)) d)
                 @ ''}'') (PDict d)"
    by (rule reads_back_dict)
  then show ?case
    by (cases "d = []") (simp_all add: json_encode.simps newline_indent_def item_separator_def)
qed

lemma json_parse_dumps:
  assumes "wf_val v" "floats_ok L v"
  shows "json_parse (float_of_str L) (json_dumps L v) = Some v"
proof -
  from assms have rb: "reads_back (float_of_str L) (json_dumps L v) v"
    unfolding json_dumps_def by (rule reads_back_json_encode)
  then obtain c cs where c: "json_dumps L v = c # cs" "value_start c"
    by (auto simp: reads_back_def)
  have "value_end []" by (simp add: value_end_def)
  with rb have "parse_value (float_of_str L) (Suc (length (json_dumps L v))) (json_dumps L v @ []) = Some (v, [])"
    unfolding reads_back_def by (meson le_SucI order_refl)
  then have "parse_value (float_of_str L) (Suc (length (json_dumps L v))) (json_dumps L v) = Some (v, [])"
    by (simp only: append_Nil2)
  moreover have "skip_ws (json_dumps L v) = json_dumps L v"
    using c by (simp add: skip_ws_start)
  moreover have "skip_ws [] = []" by (simp add: skip_ws_def)
  ultimately show ?thesis by (simp add: json_parse_def del: parse_value.simps)
qed

lemma utf8_decode_low:
  "unat b < 128 \<Longrightarrow> utf8_decode (b # bs) = map_option ((#) (char_of (unat b))) (utf8_decode bs)"
  by (cases bs) simp_all

lemma utf8_decode_two:
  assumes "unat b = 192 + h" "h = 2 \<or> h = 3" "unat c = 128 + l" "l < 64"
  shows "utf8_decode (b # c # bs) = map_option ((#) (char_of (h * 64 + l))) (utf8_decode bs)"
proof -
  from assms have "\<not> unat b < 128" "unat b = 194 \<or> unat b = 195" "128 \<le> unat c" "unat c < 192"
    "unat b - 192 = h" "unat c - 128 = l"
    by auto
  then show ?thesis by (simp only: utf8_decode.simps if_True if_False simp_thms)
qed

lemma utf8_decode_char: "utf8_decode (encode_char c @ bs) = map_option ((#) c) (utf8_decode bs)"
proof (cases "(of_char c :: nat) < 128")
  case True
  then have u: "unat (of_nat (of_char c) :: 8 word) = of_char c"
    by (simp add: unat_of_nat)
  with True show ?thesis
    by (simp add: encode_char_def utf8_decode_low)
next
  case False
  define n where "n = (of_char c :: nat)"
  define h where "h = n div 64"
  define l where "l = n mod 64"
  have lt: "n < 256" by (simp add: n_def)
  from False have ge: "128 \<le> n" by (simp add: n_def)
  then have "2 \<le> h" unfolding h_def by (simp add: less_eq_div_iff_mult_less_eq)
  moreover from lt have "h < 4" unfolding h_def by (simp add: div_less_iff_less_mult)
  ultimately have d: "h = 2 \<or> h = 3" by linarith
  have l: "l < 64" by (simp add: l_def)
  have n: "h * 64 + l = n" by (simp add: h_def l_def)
  from d have "192 + h < 256" by auto
  then have u1: "unat (of_nat (192 + h) :: 8 word) = 192 + h"
    by (simp only: unat_of_nat) simp
  from l have "128 + l < 256" by simp
  then have u2: "unat (of_nat (128 + l) :: 8 word) = 128 + l"
    by (simp only: unat_of_nat) simp
  have "utf8_decode (of_nat (192 + h) # of_nat (128 + l) # bs)
      = map_option ((#) (char_of (h * 64 + l))) (utf8_decode bs)"
    by (rule utf8_decode_two [OF u1 d u2 l])
  moreover have "encode_char c = [of_nat (192 + h), of_nat (128 + l)]"
    using False by (simp add: encode_char_def Let_def h_def l_def n_def)
  moreover have "(char_of n :: char) = c" by (simp add: n_def)
  ultimately show ?thesis by (simp only: n append_Cons append_Nil)
qed

lemma utf8_decode_encode: "utf8_decode (str_encode s) = Some s"
  by (induction s) (simp_all add: str_encode_def utf8_decode_char)

lemma codec_float_ok: "float_ok codec_lib 0x3FF8000000000000"
proof -
  have "parse_value codec_float_of (Suc 0) (''1.5'' @ r) = Some (PFloat 0x3FF8000000000000, r)"
    if "value_end r" for r
    using that
    by (cases r rule: value_end_cases)
       (simp_all add: scan_number_def scan_int_def scan_digits_def scan_frac_def scan_exp_def
          is_digit_def codec_float_of_def)
  then show ?thesis by (simp add: float_ok_def codec_lib_def)
qed

text \<open>
  Claim C4. For a key that Fernet accepts, decrypting what \<^verbatim>\<open>encrypt_data\<close> returns for a
  payload gives the payload back, and so for \<^verbatim>\<open>encrypt_config\<close> and \<^verbatim>\<open>decrypt_config\<close>.
  The payload is any dictionary of the model whose floats are printed to a text that is
  read back as the same float. The libraries enter through contracts that do not mention
  the payload: Fernet decrypts, under the same key, every token it built with 16 random
  bytes; decoding undoes encoding for every string; and \<^verbatim>\<open>json.loads\<close> returns what the
  reference reader returns. That the reader returns the payload on what \<^verbatim>\<open>json.dumps\<close>
  wrote for it is \<open>json_parse_dumps\<close> above, proved and not assumed.
\<close>

theorem decrypt_encrypt_roundtrip:
  assumes "fernet_key_ok L key"
    and "\<forall>time iv data. length iv = 16 \<longrightarrow>
           fernet_decrypt L key (fernet_encrypt L key time iv data) = Some data"
    and "\<forall>s. bytes_decode L (str_encode s) = Inr s"
    and "\<forall>text v. json_parse (float_of_str L) text = Some v \<longrightarrow> json_loads L text = Inr v"
    and "wf_val (PDict P)"
    and "floats_ok L (PDict P)"
  shows "(\<exists>token. fst (encrypt_data L P key w) = Inr token \<and>
                  decrypt_data L token key = Inr (PDict P)) \<and>
         (\<exists>token. fst (encrypt_config L P key w) = Inr token \<and>
                  decrypt_config L token key = Inr (PDict P))"
proof -
  let ?text = "json_dumps L (PDict P)"
  from assms(5,6) have "json_parse (float_of_str L) ?text = Some (PDict P)"
    by (rule json_parse_dumps)
  with assms(4) have j: "json_loads L ?text = Inr (PDict P)" by blast
  from assms(3) have b: "bytes_decode L (str_encode ?text) = Inr ?text" by blast
  from assms(2) have f: "\<forall>time iv. length iv = 16 \<longrightarrow>
      fernet_decrypt L key (fernet_encrypt L key time iv (str_encode ?text))
        = Some (str_encode ?text)" by blast
  from assms(1) f b j show ?thesis
    by (simp add: encrypt_data_def decrypt_data_def encrypt_config_def decrypt_config_def
          except_as_def json_loads_bytes_def os_urandom_def split: prod.splits)
qed

theorem decrypt_encrypt_roundtrip_witness:
  "fernet_key_ok codec_lib (fst (fst (derive_key codec_lib ''pw'' None w_empty))) \<and>
   (case fst (encrypt_data codec_lib payload_mixed
                (fst (fst (derive_key codec_lib ''pw'' None w_empty))) w_empty) of
      Inr token \<Rightarrow>
        decrypt_data codec_lib token (fst (fst (derive_key codec_lib ''pw'' None w_empty)))
    | Inl e \<Rightarrow> Inl e) = Inr (PDict payload_mixed) \<and>
   (case fst (encrypt_config codec_lib payload_mixed
                (fst (fst (derive_key codec_lib ''pw'' None w_empty))) w_empty) of
      Inr token \<Rightarrow>
        decrypt_config codec_lib token (fst (fst (derive_key codec_lib ''pw'' None w_empty)))
    | Inl e \<Rightarrow> Inl e) = Inr (PDict payload_mixed)"
proof -
  let ?k = "fst (fst (derive_key codec_lib ''pw'' None w_empty))"
  have k: "fernet_key_ok codec_lib ?k" by code_simp
  then have len: "length ?k = 44" by (simp add: codec_lib_def stub_lib_def)
  have f: "\<forall>time iv data. length iv = 16 \<longrightarrow>
           fernet_decrypt codec_lib ?k (fernet_encrypt codec_lib ?k time iv data) = Some data"
    using len by (simp add: codec_lib_def stub_lib_def)
  have b: "\<forall>s. bytes_decode codec_lib (str_encode s) = Inr s"
    by (simp add: codec_lib_def utf8_decode_encode)
  have j: "\<forall>text v. json_parse (float_of_str codec_lib) text = Some v
             \<longrightarrow> json_loads codec_lib text = Inr v"
    by (simp add: codec_lib_def)
  have wf: "wf_val (PDict payload_mixed)" by code_simp
  have fl: "floats_ok codec_lib (PDict payload_mixed)"
    by (simp add: payload_mixed_def codec_float_ok)
  from decrypt_encrypt_roundtrip [OF k f b j wf fl, of w_empty]
  obtain t1 t2 where
    "fst (encrypt_data codec_lib payload_mixed ?k w_empty) = Inr t1"
    "decrypt_data codec_lib t1 ?k = Inr (PDict payload_mixed)"
    "fst (encrypt_config codec_lib payload_mixed ?k w_empty) = Inr t2"
    "decrypt_config codec_lib t2 ?k = Inr (PDict payload_mixed)"
    by blast
  then show ?thesis using k by simp
qed

section \<open>Proofs: the integrity check\<close>

lemma distinct_map_insort_key:
  "distinct (map f (insort_key f x xs)) \<longleftrightarrow> f x \<notin> f ` set xs \<and> distinct (map f xs)"
  by (induction xs) (auto simp: set_insort_key)

lemma distinct_map_sort_key: "distinct (map f (sort_key f xs)) \<longleftrightarrow> distinct (map f xs)"
  by (induction xs) (auto simp: sort_key_simps distinct_map_insort_key)

lemma sorted_keys_unique:
  assumes "distinct (map fst a)" "distinct (map fst b)" "set (map fst a) = set (map fst b)"
  shows "map fst (sort_key fst a) = map fst (sort_key fst b)"
proof (rule sorted_distinct_set_unique)
  show "sorted (map fst (sort_key fst a))" "sorted (map fst (sort_key fst b))" by simp_all
  show "distinct (map fst (sort_key fst a))" "distinct (map fst (sort_key fst b))"
    using assms by (simp_all add: distinct_map_sort_key)
  show "set (map fst (sort_key fst a)) = set (map fst (sort_key fst b))"
    using assms(3) by simp
qed

lemma same_payload_encode:
  "same_payload v1 v2 \<Longrightarrow> wf_val v1 \<Longrightarrow> wf_val v2 \<Longrightarrow>
   json_encode L True indent level v1 = json_encode L True indent level v2"
proof (induction v1 v2 arbitrary: level rule: same_payload.induct)
  case (1 xs ys)
  from "1.prems"(1) have len: "length xs = length ys"
    and all: "\<forall>xy \<in> set (zip xs ys). same_payload (fst xy) (snd xy)"
    by (simp_all add: same_payload.simps list_all_iff)
  have "map (json_encode L True indent (level + 1)) xs = map (json_encode L True indent (level + 1)) ys"
  proof (rule nth_equalityI)
    show "length (map (json_encode L True indent (level + 1)) xs)
            = length (map (json_encode L True indent (level + 1)) ys)" using len by simp
  next
    fix i assume "i < length (map (json_encode L True indent (level + 1)) xs)"
    then have i: "i < length xs" "i < length ys" using len by simp_all
    then have mem: "(xs ! i, ys ! i) \<in> set (zip xs ys)"
      by (metis in_set_zip fst_conv snd_conv)
    have "json_encode L True indent (level + 1) (xs ! i) = json_encode L True indent (level + 1) (ys ! i)"
      using "1.IH" [OF mem, of "level + 1"] all mem "1.prems"(2,3) i
      by (auto simp: list_all_iff)
    then show "map (json_encode L True indent (level + 1)) xs ! i
                 = map (json_encode L True indent (level + 1)) ys ! i"
      using i by simp
  qed
  moreover have "xs = [] \<longleftrightarrow> ys = []" using len by auto
  ultimately show ?case by (simp add: json_encode.simps)
next
  case (2 a b)
  from "2.prems" have keys: "set (map fst a) = set (map fst b)"
    and all: "\<forall>kv \<in> set a. case map_of b (fst kv) of None \<Rightarrow> False
                                 | Some v' \<Rightarrow> same_payload (snd kv) v'"
    and da: "distinct (map fst a)" and db: "distinct (map fst b)"
    and wa: "\<forall>kv \<in> set a. wf_val (snd kv)" and wb: "\<forall>kv \<in> set b. wf_val (snd kv)"
    by (simp_all add: same_payload.simps list_all_iff)
  let ?sa = "sort_key fst a" and ?sb = "sort_key fst b"
  let ?f = "\<lambda>kv. encode_basestring_ascii (fst kv) @ '': ''
                  @ json_encode L True indent (level + 1) (snd kv)"
  have fsts: "map fst ?sa = map fst ?sb" by (rule sorted_keys_unique [OF da db keys])
  then have len: "length ?sa = length ?sb" by (metis length_map)
  have "map ?f ?sa = map ?f ?sb"
  proof (rule nth_equalityI)
    show "length (map ?f ?sa) = length (map ?f ?sb)" using len by simp
  next
    fix i assume "i < length (map ?f ?sa)"
    then have i: "i < length ?sa" "i < length ?sb" using len by simp_all
    have ka: "?sa ! i \<in> set a" using i(1) by (metis nth_mem set_sort)
    have kb: "?sb ! i \<in> set b" using i(2) by (metis nth_mem set_sort)
    have fk: "fst (?sa ! i) = fst (?sb ! i)"
      using fsts i by (metis nth_map)
    have "map_of b (fst (?sb ! i)) = Some (snd (?sb ! i))"
      using db kb by (metis map_of_is_SomeI prod.collapse)
    then have mo: "map_of b (fst (?sa ! i)) = Some (snd (?sb ! i))" using fk by simp
    with all ka have sp: "same_payload (snd (?sa ! i)) (snd (?sb ! i))" by fastforce
    have "json_encode L True indent (level + 1) (snd (?sa ! i))
            = json_encode L True indent (level + 1) (snd (?sb ! i))"
      using "2.IH" [OF ka mo sp, of "level + 1"] wa wb ka kb by blast
    then show "map ?f ?sa ! i = map ?f ?sb ! i" using i fk by simp
  qed
  moreover have "a = [] \<longleftrightarrow> b = []" using keys by auto
  ultimately show ?case by (simp add: json_encode.simps)
qed (simp_all add: same_payload.simps)

text \<open>
  Claim C7. For two payloads that are the same up to the order of insertion of their
  keys, \<^verbatim>\<open>json.dumps(data, sort_keys=True)\<close> is the same text, the signature
  \<^verbatim>\<open>verify_data_integrity\<close> computes is the same, and the verdict for any given signature
  is the same (as is the error when the secret is not set).
\<close>

theorem signature_order_independent:
  assumes "wf_val (PDict d1)" and "wf_val (PDict d2)" and "same_payload (PDict d1) (PDict d2)"
  shows "json_dumps_sorted L (PDict d1) = json_dumps_sorted L (PDict d2) \<and>
         calculated_signature L secret_key d1 = calculated_signature L secret_key d2 \<and>
         verify_data_integrity L d1 signature w = verify_data_integrity L d2 signature w"
proof -
  have d: "json_dumps_sorted L (PDict d1) = json_dumps_sorted L (PDict d2)"
    unfolding json_dumps_sorted_def using assms(3,1,2) by (rule same_payload_encode)
  then have s: "calculated_signature L k d1 = calculated_signature L k d2" for k
    by (simp add: calculated_signature_def)
  show ?thesis
    unfolding verify_data_integrity_def by (simp only: d s simp_thms)
qed

theorem signature_order_independent_witness:
  \<open>wf_val (PDict payload_ab) \<and> wf_val (PDict payload_ba) \<and>
   same_payload (PDict payload_ab) (PDict payload_ba) \<and>
   payload_ab \<noteq> payload_ba \<and>
   json_dumps_sorted stub_lib (PDict payload_ab) = ''{"a": 1, "b": {"x": "u", "y": null}}'' \<and>
   json_dumps_sorted stub_lib (PDict payload_ba) = ''{"a": 1, "b": {"x": "u", "y": null}}'' \<and>
   verify_data_integrity stub_lib payload_ab (calculated_signature stub_lib ''k1'' payload_ab) w_signing
     = Inr True \<and>
   verify_data_integrity stub_lib payload_ba (calculated_signature stub_lib ''k1'' payload_ab) w_signing
     = Inr True\<close>
proof -
  have h: "wf_val (PDict payload_ab)" "wf_val (PDict payload_ba)"
    "same_payload (PDict payload_ab) (PDict payload_ba)"
    by code_simp+
  have e: \<open>payload_ab \<noteq> payload_ba\<close>
    \<open>json_dumps_sorted stub_lib (PDict payload_ab) = ''{"a": 1, "b": {"x": "u", "y": null}}''\<close>
    \<open>verify_data_integrity stub_lib payload_ab (calculated_signature stub_lib ''k1'' payload_ab) w_signing
       = Inr True\<close>
    by code_simp+
  show ?thesis
    using signature_order_independent [OF h, of stub_lib "''k1''"
        "calculated_signature stub_lib ''k1'' payload_ab" w_signing] h e
    by simp
qed

section \<open>Proofs: the redactor on the heap\<close>

lemma length_store_item [simp]: "length (store_item h r k v) = length h"
  by (simp add: store_item_def split: option.splits hobj.splits)

lemma store_item_other [simp]: "a \<noteq> r \<Longrightarrow> store_item h r k v ! a = h ! a"
  by (simp add: store_item_def split: option.splits hobj.splits)

lemma store_item_result:
  "r < length h \<Longrightarrow> h ! r = ODict acc \<Longrightarrow> store_item h r k v ! r = ODict (dict_set acc k v)"
  by (simp add: store_item_def lookup_def)

lemma sanitize_heap_frame:
  "\<forall>res h'. sanitize_dict_heap n h d = (res, h') \<longrightarrow>
     length h \<le> length h' \<and> (\<forall>a < length h. h' ! a = h ! a) \<and>
     (\<forall>r. res = Some r \<longrightarrow> length h \<le> r \<and> r < length h')"
  "\<forall>ok h'. sanitize_items_heap n h result items = (ok, h') \<longrightarrow>
     length h \<le> length h' \<and> (\<forall>a < length h. a \<noteq> result \<longrightarrow> h' ! a = h ! a)"
  "\<forall>res h'. sanitize_value_heap n h key value = (res, h') \<longrightarrow>
     length h \<le> length h' \<and> (\<forall>a < length h. h' ! a = h ! a)"
proof (induction n h d and n h result items and n h key "value"
        rule: sanitize_dict_heap_sanitize_items_heap_sanitize_value_heap.induct)
  case (1 h d)
  then show ?case by simp
next
  case (2 n h d)
  show ?case
  proof (intro allI impI)
    fix res h'
    assume run: "sanitize_dict_heap (Suc n) h d = (res, h')"
    show "length h \<le> length h' \<and> (\<forall>a < length h. h' ! a = h ! a) \<and>
          (\<forall>r. res = Some r \<longrightarrow> length h \<le> r \<and> r < length h')"
    proof (cases "lookup h d")
      case None
      with run show ?thesis by simp
    next
      case (Some obj)
      show ?thesis
      proof (cases obj)
        case (OList vs)
        with Some run show ?thesis by simp
      next
        case (ODict its)
        obtain ok h2 where it: "sanitize_items_heap n (h @ [ODict []]) (length h) its = (ok, h2)"
          by (cases "sanitize_items_heap n (h @ [ODict []]) (length h) its")
        from "2.IH" [OF Some ODict, of "(length h, h @ [ODict []])" "length h" "h @ [ODict []]"] it
        have fr: "length (h @ [ODict []]) \<le> length h2"
          "\<forall>a < length (h @ [ODict []]). a \<noteq> length h \<longrightarrow> h2 ! a = (h @ [ODict []]) ! a"
          by (simp_all add: alloc_def)
        from run Some ODict it have res: "h' = h2" "res = (if ok then Some (length h) else None)"
          by (auto simp: alloc_def split: if_splits bool.splits)
        from fr have "length h < length h2" by simp
        moreover from fr(2) have "\<forall>a < length h. h2 ! a = h ! a" by (simp add: nth_append)
        ultimately show ?thesis using res by auto
      qed
    qed
  qed
next
  case (3 n h result)
  then show ?case by simp
next
  case (4 n h result key "value" rest)
  show ?case
  proof (intro allI impI)
    fix ok h'
    assume run: "sanitize_items_heap n h result ((key, value) # rest) = (ok, h')"
    obtain res h1 where sub: "sanitize_value_heap n h key value = (res, h1)"
      by (cases "sanitize_value_heap n h key value")
    from "4.IH"(1) sub
    have f1: "length h \<le> length h1" "\<forall>a < length h. h1 ! a = h ! a" by simp_all
    show "length h \<le> length h' \<and> (\<forall>a < length h. a \<noteq> result \<longrightarrow> h' ! a = h ! a)"
    proof (cases res)
      case None
      with run sub have "h' = h1" by simp
      with f1 show ?thesis by simp
    next
      case (Some v')
      with run sub
      have rest: "sanitize_items_heap n (store_item h1 result key v') result rest = (ok, h')"
        by simp
      from "4.IH"(2) [OF sub [symmetric] Some] rest
      have f2: "length (store_item h1 result key v') \<le> length h'"
        "\<forall>a < length (store_item h1 result key v'). a \<noteq> result \<longrightarrow>
            h' ! a = store_item h1 result key v' ! a"
        by simp_all
      with f1 show ?thesis by auto
    qed
  qed
next
  case (5 n h key "value")
  show ?case
  proof (intro allI impI)
    fix res h'
    assume run: "sanitize_value_heap n h key value = (res, h')"
    show "length h \<le> length h' \<and> (\<forall>a < length h. h' ! a = h ! a)"
    proof (cases "is_dict_ref h value")
      case None
      with run have "h' = h" by (auto split: hval.splits)
      then show ?thesis by simp
    next
      case (Some a)
      obtain r h1 where sub: "sanitize_dict_heap n h a = (r, h1)"
        by (cases "sanitize_dict_heap n h a")
      with run Some have "h' = h1" by (auto split: option.splits)
      with "5.IH" [OF Some] sub show ?thesis by simp
    qed
  qed
qed


lemma repr_on_transfer:
  "repr_on A h v t \<Longrightarrow> (\<And>a. A a \<Longrightarrow> a < length h \<Longrightarrow> B a) \<Longrightarrow>
   (\<And>a. A a \<Longrightarrow> a < length h \<Longrightarrow> lookup h' a = lookup h a) \<Longrightarrow> repr_on B h' v t"
proof (induction A h v t rule: repr_on.induct)
  case (6 A h v ts)
  from "6.prems"(1) obtain a vs where v: "v = HRef a" "A a" "lookup h a = Some (OList vs)"
    and all: "list_all2 (repr_on A h) vs ts"
    by (auto split: hval.splits option.splits hobj.splits)
  from v have lt: "a < length h" by (auto simp: lookup_def split: if_splits)
  have "list_all2 (repr_on B h') vs ts"
    using all
  proof (rule list.rel_mono_strong)
    fix x y assume "x \<in> set vs" "y \<in> set ts" "repr_on A h x y"
    then show "repr_on B h' x y"
      using "6.IH" [OF v(1,3)] "6.prems"(2,3) v by blast
  qed
  then show ?case using v lt "6.prems"(2,3) by simp
next
  case (7 A h v kts)
  from "7.prems"(1) obtain a kvs where v: "v = HRef a" "A a" "lookup h a = Some (ODict kvs)"
    and all: "list_all2 (\<lambda>kv kt. fst kv = fst kt \<and> repr_on A h (snd kv) (snd kt)) kvs kts"
    by (auto split: hval.splits option.splits hobj.splits)
  from v have lt: "a < length h" by (auto simp: lookup_def split: if_splits)
  have "list_all2 (\<lambda>kv kt. fst kv = fst kt \<and> repr_on B h' (snd kv) (snd kt)) kvs kts"
    using all
  proof (rule list.rel_mono_strong)
    fix x y assume "x \<in> set kvs" "y \<in> set kts" "fst x = fst y \<and> repr_on A h (snd x) (snd y)"
    then show "fst x = fst y \<and> repr_on B h' (snd x) (snd y)"
      using "7.IH" [OF v(1,3)] "7.prems"(2,3) v by blast
  qed
  then show ?case using v lt "7.prems"(2,3) by simp
qed simp_all

lemma sanitize_dict_fold:
  "sanitize_dict d = fold (\<lambda>kv result. dict_set result (fst kv) (redact_value (fst kv) (snd kv))) d []"
  by (subst sanitize_dict.simps) (simp add: redact_value_def)

lemma items_repr_transfer:
  "items_repr A h kvs kts \<Longrightarrow> (\<And>a. A a \<Longrightarrow> a < length h \<Longrightarrow> B a) \<Longrightarrow>
   (\<And>a. A a \<Longrightarrow> a < length h \<Longrightarrow> lookup h' a = lookup h a) \<Longrightarrow> items_repr B h' kvs kts"
  unfolding items_repr_def
  by (erule list.rel_mono_strong) (blast intro: repr_on_transfer)

lemma items_repr_dict_set:
  "items_repr A h acc accp \<Longrightarrow> repr_on A h v t \<Longrightarrow>
   items_repr A h (dict_set acc k v) (dict_set accp k t)"
  unfolding items_repr_def
  by (induction acc accp rule: list_all2_induct) auto

lemma fold_max_ge: "x \<in> set xs \<Longrightarrow> x \<le> fold max xs (m::nat)"
proof (induction xs arbitrary: m)
  case Nil then show ?case by simp
next
  case (Cons y ys)
  have mono: "m \<le> fold max ys m" for m :: nat and ys
    by (induction ys arbitrary: m) (auto intro: order_trans [OF max.cobounded2])
  show ?case
  proof (cases "x = y")
    case True
    then show ?thesis using mono [of "max y m" ys] by simp
  next
    case False
    with Cons show ?thesis by simp
  qed
qed

lemma dict_depth_child:
  "kt \<in> set kts \<Longrightarrow> dict_depth (PDict kts) \<le> Suc n \<Longrightarrow> dict_depth (snd kt) \<le> n"
  using fold_max_ge [of "dict_depth (snd kt)" "map (\<lambda>kt. dict_depth (snd kt)) kts" 0]
  by auto

lemma sanitize_value_refines:
  assumes H: "dict_call_ok M n"
    and rep: "repr_on (\<lambda>a. a < M) h v t" and M: "M \<le> length h" and dep: "dict_depth t \<le> n"
  shows "\<exists>v' h'. sanitize_value_heap n h key v = (Some v', h') \<and>
           repr_on (\<lambda>a. a < M \<or> length h \<le> a) h' v' (redact_value key t)"
proof (cases t)
  case (PDict kts)
  with rep obtain d kvs where v: "v = HRef d" "lookup h d = Some (ODict kvs)"
    by (auto split: hval.splits option.splits hobj.splits)
  from H rep M dep PDict v obtain r h' where
    "sanitize_dict_heap n h d = (Some r, h')"
    "repr_on (\<lambda>a. a < M \<or> length h \<le> a) h' (HRef r) (PDict (sanitize_dict kts))"
    unfolding dict_call_ok_def by blast
  then show ?thesis using v PDict by (simp add: redact_value_def)
next
  case (PList ts)
  with rep obtain a vs where v: "v = HRef a" "lookup h a = Some (OList vs)"
    by (auto split: hval.splits option.splits hobj.splits)
  have "repr_on (\<lambda>a. a < M \<or> length h \<le> a) h v t"
    using rep by (rule repr_on_transfer) simp_all
  then show ?thesis using v PList by (simp add: redact_value_def)
next
  case (PStr s)
  with rep show ?thesis by (simp add: redact_value_def)
qed (use rep in \<open>simp_all add: redact_value_def\<close>)

lemma sanitize_items_refines:
  assumes H: "dict_call_ok M n"
  shows "items_repr (\<lambda>a. a < M) h items kts \<Longrightarrow> M \<le> r \<Longrightarrow> r < length h \<Longrightarrow>
         h ! r = ODict acc \<Longrightarrow> items_repr (\<lambda>a. a < M \<or> r < a) h acc accp \<Longrightarrow>
         (\<forall>kt \<in> set kts. dict_depth (snd kt) \<le> n) \<Longrightarrow>
         \<exists>h' acc'. sanitize_items_heap n h r items = (True, h') \<and> r < length h' \<and>
            h' ! r = ODict acc' \<and>
            items_repr (\<lambda>a. a < M \<or> r < a) h' acc'
              (fold (\<lambda>kv result. dict_set result (fst kv) (redact_value (fst kv) (snd kv))) kts accp)"
proof (induction items arbitrary: kts h acc accp)
  case Nil
  then show ?case by (simp add: items_repr_def)
next
  case (Cons item items)
  obtain key v where item: "item = (key, v)" by (cases item)
  from Cons.prems(1) obtain t kts' where kts: "kts = (key, t) # kts'"
    and rep: "repr_on (\<lambda>a. a < M) h v t" and rest: "items_repr (\<lambda>a. a < M) h items kts'"
    unfolding items_repr_def item by (cases kts) auto
  have Mh: "M \<le> length h" using Cons.prems(2,3) by simp
  from Cons.prems(6) kts have dep: "dict_depth t \<le> n" by simp
  from sanitize_value_refines [OF H rep Mh dep, of key] obtain v' h1 where
    run: "sanitize_value_heap n h key v = (Some v', h1)"
    and rv: "repr_on (\<lambda>a. a < M \<or> length h \<le> a) h1 v' (redact_value key t)"
    by blast
  from sanitize_heap_frame(3) [of n h key v] run
  have fr: "length h \<le> length h1" "\<forall>a < length h. h1 ! a = h ! a" by simp_all
  let ?h2 = "store_item h1 r key v'"
  have r1: "r < length h1" "h1 ! r = ODict acc" using fr Cons.prems(3,4) by simp_all
  have h2r: "?h2 ! r = ODict (dict_set acc key v')" using r1 by (rule store_item_result)
  have look: "lookup ?h2 a = lookup h a" if "a < length h" "a \<noteq> r" for a
    using that fr by (simp add: lookup_def)
  have look1: "lookup ?h2 a = lookup h1 a" if "a \<noteq> r" for a
    using that by (simp add: lookup_def)
  have rest2: "items_repr (\<lambda>a. a < M) ?h2 items kts'"
    using rest by (rule items_repr_transfer) (use Cons.prems(2) look in auto)
  have acc2: "items_repr (\<lambda>a. a < M \<or> r < a) ?h2 acc accp"
    using Cons.prems(5) by (rule items_repr_transfer) (use Cons.prems(2) look in auto)
  have rv2: "repr_on (\<lambda>a. a < M \<or> r < a) ?h2 v' (redact_value key t)"
    using rv by (rule repr_on_transfer) (use Cons.prems(2,3) look1 in auto)
  have acc3: "items_repr (\<lambda>a. a < M \<or> r < a) ?h2 (dict_set acc key v') (dict_set accp key (redact_value key t))"
    using acc2 rv2 by (rule items_repr_dict_set)
  from Cons.IH [OF rest2 Cons.prems(2) _ h2r acc3] Cons.prems(6) kts r1
  obtain h' acc' where
    "sanitize_items_heap n ?h2 r items = (True, h')" "r < length h'" "h' ! r = ODict acc'"
    "items_repr (\<lambda>a. a < M \<or> r < a) h' acc'
       (fold (\<lambda>kv result. dict_set result (fst kv) (redact_value (fst kv) (snd kv))) kts'
          (dict_set accp key (redact_value key t)))"
    by auto
  then show ?case using run item kts by simp
qed

lemma sanitize_dict_refines: "dict_call_ok M n"
proof (induction n)
  case 0
  show ?case by (simp add: dict_call_ok_def)
next
  case (Suc n)
  show ?case
    unfolding dict_call_ok_def
  proof (intro allI impI, elim conjE)
    fix h d kts
    assume rep: "repr_on (\<lambda>a. a < M) h (HRef d) (PDict kts)" and M: "M \<le> length h"
      and dep: "dict_depth (PDict kts) \<le> Suc n"
    from rep obtain items where d: "d < M" "lookup h d = Some (ODict items)"
      and its: "items_repr (\<lambda>a. a < M) h items kts"
      by (auto simp: items_repr_def split: option.splits hobj.splits)
    let ?h1 = "h @ [ODict []]" and ?r = "length h"
    have look: "lookup ?h1 a = lookup h a" if "a < length h" for a
      using that by (simp add: lookup_def nth_append)
    have its1: "items_repr (\<lambda>a. a < M) ?h1 items kts"
      using its by (rule items_repr_transfer) (use look in auto)
    have deps: "\<forall>kt \<in> set kts. dict_depth (snd kt) \<le> n"
      using dep dict_depth_child by blast
    from sanitize_items_refines [OF Suc its1 M, of "[]" "[]"] deps
    obtain h' acc' where run: "sanitize_items_heap n ?h1 ?r items = (True, h')"
      and r: "?r < length h'" "h' ! ?r = ODict acc'"
      and res: "items_repr (\<lambda>a. a < M \<or> ?r < a) h' acc' (sanitize_dict kts)"
      by (auto simp: items_repr_def sanitize_dict_fold)
    have "items_repr (\<lambda>a. a < M \<or> ?r \<le> a) h' acc' (sanitize_dict kts)"
      using res by (rule items_repr_transfer) auto
    then have "repr_on (\<lambda>a. a < M \<or> ?r \<le> a) h' (HRef ?r) (PDict (sanitize_dict kts))"
      using r by (simp add: lookup_def items_repr_def)
    moreover have "sanitize_dict_heap (Suc n) h d = (Some ?r, h')"
      using d run by (simp add: alloc_def)
    ultimately show "\<exists>r h'. sanitize_dict_heap (Suc n) h d = (Some r, h') \<and>
        repr_on (\<lambda>a. a < M \<or> length h \<le> a) h' (HRef r) (PDict (sanitize_dict kts))"
      by blast
  qed
qed

text \<open>
  Claim C9. Whatever the heap, the argument and the outcome, every object that existed
  before the call is the same after it, and a returned result is an object that did not
  exist before. And the call does return for every dictionary that is a finite payload
  nested no deeper than the recursion limit: its result is a new dictionary that is the
  sanitized payload, and the argument is still the payload it was.
\<close>

theorem sanitize_leaves_input_unchanged:
  "(sanitize_sensitive_data_heap n h d = (res, h') \<longrightarrow>
      take (length h) h' = h \<and> (\<forall>r. res = Some r \<longrightarrow> length h \<le> r \<and> r < length h')) \<and>
   (represents h (HRef d) (PDict data) \<and> dict_depth (PDict data) \<le> n \<longrightarrow>
      (\<exists>r h''. sanitize_sensitive_data_heap n h d = (Some r, h'') \<and>
         represents h'' (HRef r) (PDict (sanitize_sensitive_data data)) \<and>
         represents h'' (HRef d) (PDict data)))"
proof (rule conjI; rule impI)
  assume run: "sanitize_sensitive_data_heap n h d = (res, h')"
  with sanitize_heap_frame(1) [of n h d]
  have fr: "length h \<le> length h'" "\<forall>a < length h. h' ! a = h ! a"
    "\<forall>r. res = Some r \<longrightarrow> length h \<le> r \<and> r < length h'"
    by (simp_all add: sanitize_sensitive_data_heap_def)
  have "take (length h) h' = h"
    using fr(1,2) by (intro nth_equalityI) simp_all
  with fr(3) show "take (length h) h' = h \<and> (\<forall>r. res = Some r \<longrightarrow> length h \<le> r \<and> r < length h')"
    by simp
next
  assume a: "represents h (HRef d) (PDict data) \<and> dict_depth (PDict data) \<le> n"
  then have rep: "repr_on (\<lambda>a. a < length h) h (HRef d) (PDict data)"
    unfolding represents_def by (elim conjE) (rule repr_on_transfer, simp_all)
  from sanitize_dict_refines [of "length h" n] rep a
  obtain r h'' where run: "sanitize_dict_heap n h d = (Some r, h'')"
    and res: "repr_on (\<lambda>a. a < length h \<or> length h \<le> a) h'' (HRef r) (PDict (sanitize_dict data))"
    unfolding dict_call_ok_def by blast
  from sanitize_heap_frame(1) [of n h d] run
  have fr: "length h \<le> length h''" "\<forall>a < length h. h'' ! a = h ! a" by simp_all
  have "represents h'' (HRef r) (PDict (sanitize_sensitive_data data))"
    unfolding represents_def sanitize_sensitive_data_def
    using res by (rule repr_on_transfer) simp_all
  moreover have "represents h'' (HRef d) (PDict data)"
    unfolding represents_def
    using rep by (rule repr_on_transfer) (use fr in \<open>simp_all add: lookup_def\<close>)
  ultimately show "\<exists>r h''. sanitize_sensitive_data_heap n h d = (Some r, h'') \<and>
         represents h'' (HRef r) (PDict (sanitize_sensitive_data data)) \<and>
         represents h'' (HRef d) (PDict data)"
    using run by (auto simp: sanitize_sensitive_data_heap_def)
qed

theorem sanitize_leaves_input_unchanged_witness:
  "represents heap0 (HRef 0) (PDict tree0) \<and> dict_depth (PDict tree0) \<le> 2 \<and>
   sanitize_sensitive_data_heap 2 heap0 0 =
     (Some 3, heap0 @ [ODict [(''password'', HStr ''hu***r2''), (''tags'', HRef 1), (''db'', HRef 4)],
                       ODict [(''api_key'', HStr ''ab****gh'')]]) \<and>
   take (length heap0)
     (heap0 @ [ODict [(''password'', HStr ''hu***r2''), (''tags'', HRef 1), (''db'', HRef 4)],
               ODict [(''api_key'', HStr ''ab****gh'')]]) = heap0 \<and>
   represents (snd (sanitize_sensitive_data_heap 2 heap0 0)) (HRef 0) (PDict tree0)"
proof -
  let ?h' = "heap0 @ [ODict [(''password'', HStr ''hu***r2''), (''tags'', HRef 1), (''db'', HRef 4)],
                      ODict [(''api_key'', HStr ''ab****gh'')]]"
  have a: "represents heap0 (HRef 0) (PDict tree0) \<and> dict_depth (PDict tree0) \<le> 2"
    by code_simp
  have run: "sanitize_sensitive_data_heap 2 heap0 0 = (Some 3, ?h')"
    by code_simp
  from sanitize_leaves_input_unchanged [of 2 heap0 0 "Some 3" ?h' tree0] run
  have t: "take (length heap0) ?h' = heap0" by blast
  from sanitize_leaves_input_unchanged [of 2 heap0 0 "Some 3" ?h' tree0] a
  obtain r h'' where "sanitize_sensitive_data_heap 2 heap0 0 = (Some r, h'')"
    "represents h'' (HRef 0) (PDict tree0)" by blast
  then have "represents (snd (sanitize_sensitive_data_heap 2 heap0 0)) (HRef 0) (PDict tree0)"
    by simp
  with a run t show ?thesis by (simp only: simp_thms)
qed

end
